theory Spec2Isabelle
  imports Main "HOL-Library.Word" "HOL-Library.AList"
begin

unbundle bit_operations_syntax

section \<open>Exceptions and results\<close>

text \<open>
  The exception classes of \<^verbatim>\<open>exceptions.py\<close> that \<^verbatim>\<open>table.py\<close> raises, and Python's
  built-in \<^verbatim>\<open>ValueError\<close>. A method either raises or returns; a method that mutates the
  table returns the table as it is afterwards beside its outcome, so that the state left
  behind by a raise is part of the model.
\<close>

datatype py_error =
    ValueError
  | LpmClosedError
  | LpmInsertError
  | LpmDeleteError
  | LpmInvalidPrefixError

datatype 'a outcome = Raise py_error | Return 'a

section \<open>The standard library's address types\<close>

text \<open>
  \<^verbatim>\<open>ipaddress\<close> belongs to the Python standard library. An address object is its integer
  value, a word of the family's width (32 or 128 bits). A network object holds a network
  address and a prefix length. How a text is read as an address or as an address with a
  prefix length is a parameter (\<open>ip_text\<close>); what the network constructor does with the
  parsed pair is modelled: it rejects a prefix length beyond the width, and with
  \<^verbatim>\<open>strict=False\<close> it replaces the address by \<^verbatim>\<open>address & netmask\<close>.
\<close>

datatype 'w ip_network =
  IPNetwork (network_address: 'w) (prefixlen: nat)

record 'w ip_text =
  address_of_text :: "string \<Rightarrow> 'w option"
  interface_of_text :: "string \<Rightarrow> ('w \<times> nat) option"

text \<open>\<^verbatim>\<open>_ip_int_from_prefix\<close>: \<^verbatim>\<open>ALL_ONES ^ (ALL_ONES >> prefixlen)\<close>.\<close>

definition netmask :: "nat \<Rightarrow> 'a :: len word" where
  "netmask plen = (- 1) XOR (drop_bit plen (- 1))"

definition ip_address :: "'a :: len word ip_text \<Rightarrow> string \<Rightarrow> py_error + 'a word" where
  "ip_address P s =
     (case address_of_text P s of None \<Rightarrow> Inl ValueError | Some a \<Rightarrow> Inr a)"

definition ip_network_ctor ::
  "'a :: len word ip_text \<Rightarrow> string \<Rightarrow> bool \<Rightarrow> py_error + 'a word ip_network" where
  "ip_network_ctor P s strict =
     (case interface_of_text P s of
        None \<Rightarrow> Inl ValueError
      | Some (addr, plen) \<Rightarrow>
          if plen > LENGTH('a) then Inl ValueError
          else if addr AND netmask plen \<noteq> addr then
            (if strict then Inl ValueError
             else Inr (IPNetwork (addr AND netmask plen) plen))
          else Inr (IPNetwork addr plen))"

text \<open>\<^verbatim>\<open>.packed\<close>: the address in network byte order, most significant byte first.\<close>

definition packed :: "'a :: len word \<Rightarrow> 8 word list" where
  "packed a = map (\<lambda>i. ucast (drop_bit (8 * i) a)) (rev [0..<LENGTH('a) div 8])"

text \<open>\<^verbatim>\<open>int.from_bytes(bs, 'big')\<close>.\<close>

definition int_from_bytes_big :: "8 word list \<Rightarrow> int" where
  "int_from_bytes_big bs = foldl (\<lambda>acc b. acc * 256 + uint b) 0 bs"

text \<open>
  A network object as the standard library builds it: the prefix length is within the
  width and no bit beyond it is set.
\<close>

definition wf_network :: "'a :: len word ip_network \<Rightarrow> bool" where
  "wf_network n \<longleftrightarrow>
     prefixlen n \<le> LENGTH('a) \<and>
     network_address n AND netmask (prefixlen n) = network_address n"

section \<open>The arguments of the public methods\<close>

text \<open>
  \<^verbatim>\<open>Union[IPv4Network, str]\<close> and \<^verbatim>\<open>Union[IPv4Address, str]\<close>. \<open>PObj\<close> stands for an
  argument of any other type (its type name), which \<^verbatim>\<open>insert\<close> and \<^verbatim>\<open>delete\<close> test for.
\<close>

datatype 'w prefix_arg = PStr string | PNet "'w ip_network" | PObj string

datatype 'w addr_arg = AStr string | AAddr 'w

datatype Algorithm = DIR24 | WIDE16 | STRIDE8

fun Algorithm_value :: "Algorithm \<Rightarrow> string" where
  "Algorithm_value DIR24 = ''dir24''"
| "Algorithm_value WIDE16 = ''wide16''"
| "Algorithm_value STRIDE8 = ''stride8''"

datatype algorithm_arg = AlgEnum Algorithm | AlgStr string

section \<open>The extension module\<close>

text \<open>
  \<^verbatim>\<open>table.py\<close> imports \<^verbatim>\<open>_LpmTrieIPv4\<close>, \<^verbatim>\<open>_LpmTrieIPv6\<close> and \<^verbatim>\<open>INVALID_NEXT_HOP\<close> from the
  compiled module \<^verbatim>\<open>_liblpm\<close>. The two classes are parameters of the model: a record of
  the methods the wrapper calls, over any type \<open>'e\<close> of engine states. \<^verbatim>\<open>add\<close> and
  \<^verbatim>\<open>delete\<close> return their status code with the engine as they leave it; the lookups read
  the engine; \<^verbatim>\<open>lookup_batch\<close> returns the contents of the result array it was given
  to fill. The constant has the value that \<^verbatim>\<open>__init__.py\<close> exports under the same name.
\<close>

definition INVALID_NEXT_HOP :: int where
  "INVALID_NEXT_HOP = 0xFFFFFFFF"

record 'e LpmTrieIPv4 =
  t4_new :: "string \<Rightarrow> 'e"
  t4_add :: "'e \<Rightarrow> 8 word list \<Rightarrow> nat \<Rightarrow> int \<Rightarrow> int \<times> 'e"
  t4_delete :: "'e \<Rightarrow> 8 word list \<Rightarrow> nat \<Rightarrow> int \<times> 'e"
  t4_lookup :: "'e \<Rightarrow> int \<Rightarrow> int"
  t4_lookup_batch :: "'e \<Rightarrow> int list \<Rightarrow> int list \<Rightarrow> int list"
  t4_close :: "'e \<Rightarrow> 'e"
  t4_num_prefixes :: "'e \<Rightarrow> int"

record 'e LpmTrieIPv6 =
  t6_new :: "string \<Rightarrow> 'e"
  t6_add :: "'e \<Rightarrow> 8 word list \<Rightarrow> nat \<Rightarrow> int \<Rightarrow> int \<times> 'e"
  t6_delete :: "'e \<Rightarrow> 8 word list \<Rightarrow> nat \<Rightarrow> int \<times> 'e"
  t6_lookup :: "'e \<Rightarrow> 8 word list \<Rightarrow> int"
  t6_lookup_batch :: "'e \<Rightarrow> 8 word list list \<Rightarrow> int list \<Rightarrow> int list"
  t6_close :: "'e \<Rightarrow> 'e"
  t6_num_prefixes :: "'e \<Rightarrow> int"

section \<open>The table classes\<close>

text \<open>Both classes have the slots \<^verbatim>\<open>_trie\<close> and \<^verbatim>\<open>_closed\<close>.\<close>

record 'e table =
  trie :: 'e
  closed :: bool

text \<open>
  The first lines of both constructors: \<^verbatim>\<open>algorithm.value\<close> for a member of the
  enumeration, \<^verbatim>\<open>str(algorithm)\<close> otherwise.
\<close>

definition algo_str_of :: "algorithm_arg \<Rightarrow> string" where
  "algo_str_of algorithm =
     (case algorithm of AlgEnum a \<Rightarrow> Algorithm_value a | AlgStr s \<Rightarrow> s)"

subsection \<open>LpmTableIPv4\<close>

definition LpmTableIPv4_init ::
  "'e LpmTrieIPv4 \<Rightarrow> algorithm_arg \<Rightarrow> py_error + 'e table" where
  "LpmTableIPv4_init E algorithm =
     (let algo_str = algo_str_of algorithm
      in if algo_str \<notin> set [''dir24'', ''stride8''] then Inl ValueError
         else Inr \<lparr>trie = t4_new E algo_str, closed = False\<rparr>)"

text \<open>The conversion of a prefix argument that \<^verbatim>\<open>insert\<close> and \<^verbatim>\<open>delete\<close> share.\<close>

definition to_network ::
  "'a :: len word ip_text \<Rightarrow> 'a word prefix_arg \<Rightarrow> py_error + 'a word ip_network" where
  "to_network P prefix =
     (case (case prefix of
              PStr s \<Rightarrow>
                (case ip_network_ctor P s False of
                   Inl e \<Rightarrow> Inl LpmInvalidPrefixError
                 | Inr n \<Rightarrow> Inr (PNet n))
            | _ \<Rightarrow> Inr prefix) of
        Inl e \<Rightarrow> Inl e
      | Inr (PNet n) \<Rightarrow> Inr n
      | Inr _ \<Rightarrow> Inl LpmInvalidPrefixError)"

definition LpmTableIPv4_insert ::
  "'e LpmTrieIPv4 \<Rightarrow> 32 word ip_text \<Rightarrow> 'e table \<Rightarrow> 32 word prefix_arg \<Rightarrow> int
     \<Rightarrow> unit outcome \<times> 'e table" where
  "LpmTableIPv4_insert E P self prefix next_hop =
     (if closed self then (Raise LpmClosedError, self)
      else if \<not> (0 \<le> next_hop \<and> next_hop \<le> 0xFFFFFFFF) then (Raise ValueError, self)
      else case to_network P prefix of
             Inl e \<Rightarrow> (Raise e, self)
           | Inr n \<Rightarrow>
               let prefix_bytes = packed (network_address n);
                   prefix_len = prefixlen n;
                   (result, trie') = t4_add E (trie self) prefix_bytes prefix_len next_hop
               in if result \<noteq> 0 then (Raise LpmInsertError, self\<lparr>trie := trie'\<rparr>)
                  else (Return (), self\<lparr>trie := trie'\<rparr>))"

definition LpmTableIPv4_delete ::
  "'e LpmTrieIPv4 \<Rightarrow> 32 word ip_text \<Rightarrow> 'e table \<Rightarrow> 32 word prefix_arg
     \<Rightarrow> unit outcome \<times> 'e table" where
  "LpmTableIPv4_delete E P self prefix =
     (if closed self then (Raise LpmClosedError, self)
      else case to_network P prefix of
             Inl e \<Rightarrow> (Raise e, self)
           | Inr n \<Rightarrow>
               let prefix_bytes = packed (network_address n);
                   prefix_len = prefixlen n;
                   (result, trie') = t4_delete E (trie self) prefix_bytes prefix_len
               in if result \<noteq> 0 then (Raise LpmDeleteError, self\<lparr>trie := trie'\<rparr>)
                  else (Return (), self\<lparr>trie := trie'\<rparr>))"

definition LpmTableIPv4_lookup ::
  "'e LpmTrieIPv4 \<Rightarrow> 32 word ip_text \<Rightarrow> 'e table \<Rightarrow> 32 word addr_arg \<Rightarrow> int option outcome" where
  "LpmTableIPv4_lookup E P self addr =
     (if closed self then Raise LpmClosedError
      else case (case addr of AStr s \<Rightarrow> ip_address P s | AAddr a \<Rightarrow> Inr a) of
             Inl e \<Rightarrow> Raise e
           | Inr a \<Rightarrow>
               let addr_int = int_from_bytes_big (packed a);
                   result = t4_lookup E (trie self) addr_int
               in Return (if result \<noteq> INVALID_NEXT_HOP then Some result else None))"

text \<open>The loop of \<^verbatim>\<open>lookup_batch\<close> that fills \<^verbatim>\<open>addr_array\<close>.\<close>

fun addr_array4 ::
  "32 word ip_text \<Rightarrow> 32 word addr_arg list \<Rightarrow> int list \<Rightarrow> py_error + int list" where
  "addr_array4 P [] addr_array = Inr addr_array"
| "addr_array4 P (addr # addrs) addr_array =
     (case (case addr of AStr s \<Rightarrow> ip_address P s | AAddr a \<Rightarrow> Inr a) of
        Inl e \<Rightarrow> Inl e
      | Inr a \<Rightarrow> addr_array4 P addrs (addr_array @ [int_from_bytes_big (packed a)]))"

definition LpmTableIPv4_lookup_batch ::
  "'e LpmTrieIPv4 \<Rightarrow> 32 word ip_text \<Rightarrow> 'e table \<Rightarrow> 32 word addr_arg list
     \<Rightarrow> int option list outcome" where
  "LpmTableIPv4_lookup_batch E P self addrs =
     (if closed self then Raise LpmClosedError
      else if addrs = [] then Return []
      else case addr_array4 P addrs [] of
             Inl e \<Rightarrow> Raise e
           | Inr addr_array \<Rightarrow>
               let result_array = replicate (length addrs) 0;
                   result_array' = t4_lookup_batch E (trie self) addr_array result_array
               in Return (map (\<lambda>r. if r \<noteq> INVALID_NEXT_HOP then Some r else None)
                            result_array'))"

definition LpmTableIPv4_close :: "'e LpmTrieIPv4 \<Rightarrow> 'e table \<Rightarrow> 'e table" where
  "LpmTableIPv4_close E self =
     (if \<not> closed self then self\<lparr>trie := t4_close E (trie self), closed := True\<rparr>
      else self)"

definition LpmTableIPv4_num_prefixes :: "'e LpmTrieIPv4 \<Rightarrow> 'e table \<Rightarrow> int" where
  "LpmTableIPv4_num_prefixes E self = t4_num_prefixes E (trie self)"

subsection \<open>LpmTableIPv6\<close>

definition LpmTableIPv6_init ::
  "'e LpmTrieIPv6 \<Rightarrow> algorithm_arg \<Rightarrow> py_error + 'e table" where
  "LpmTableIPv6_init E algorithm =
     (let algo_str = algo_str_of algorithm
      in if algo_str \<notin> set [''wide16'', ''stride8''] then Inl ValueError
         else Inr \<lparr>trie = t6_new E algo_str, closed = False\<rparr>)"

definition LpmTableIPv6_insert ::
  "'e LpmTrieIPv6 \<Rightarrow> 128 word ip_text \<Rightarrow> 'e table \<Rightarrow> 128 word prefix_arg \<Rightarrow> int
     \<Rightarrow> unit outcome \<times> 'e table" where
  "LpmTableIPv6_insert E P self prefix next_hop =
     (if closed self then (Raise LpmClosedError, self)
      else if \<not> (0 \<le> next_hop \<and> next_hop \<le> 0xFFFFFFFF) then (Raise ValueError, self)
      else case to_network P prefix of
             Inl e \<Rightarrow> (Raise e, self)
           | Inr n \<Rightarrow>
               let prefix_bytes = packed (network_address n);
                   prefix_len = prefixlen n;
                   (result, trie') = t6_add E (trie self) prefix_bytes prefix_len next_hop
               in if result \<noteq> 0 then (Raise LpmInsertError, self\<lparr>trie := trie'\<rparr>)
                  else (Return (), self\<lparr>trie := trie'\<rparr>))"

definition LpmTableIPv6_delete ::
  "'e LpmTrieIPv6 \<Rightarrow> 128 word ip_text \<Rightarrow> 'e table \<Rightarrow> 128 word prefix_arg
     \<Rightarrow> unit outcome \<times> 'e table" where
  "LpmTableIPv6_delete E P self prefix =
     (if closed self then (Raise LpmClosedError, self)
      else case to_network P prefix of
             Inl e \<Rightarrow> (Raise e, self)
           | Inr n \<Rightarrow>
               let prefix_bytes = packed (network_address n);
                   prefix_len = prefixlen n;
                   (result, trie') = t6_delete E (trie self) prefix_bytes prefix_len
               in if result \<noteq> 0 then (Raise LpmDeleteError, self\<lparr>trie := trie'\<rparr>)
                  else (Return (), self\<lparr>trie := trie'\<rparr>))"

definition LpmTableIPv6_lookup ::
  "'e LpmTrieIPv6 \<Rightarrow> 128 word ip_text \<Rightarrow> 'e table \<Rightarrow> 128 word addr_arg \<Rightarrow> int option outcome" where
  "LpmTableIPv6_lookup E P self addr =
     (if closed self then Raise LpmClosedError
      else case (case addr of AStr s \<Rightarrow> ip_address P s | AAddr a \<Rightarrow> Inr a) of
             Inl e \<Rightarrow> Raise e
           | Inr a \<Rightarrow>
               let addr_bytes = packed a;
                   result = t6_lookup E (trie self) addr_bytes
               in Return (if result \<noteq> INVALID_NEXT_HOP then Some result else None))"

fun addr_list6 ::
  "128 word ip_text \<Rightarrow> 128 word addr_arg list \<Rightarrow> 8 word list list \<Rightarrow> py_error + 8 word list list" where
  "addr_list6 P [] addr_list = Inr addr_list"
| "addr_list6 P (addr # addrs) addr_list =
     (case (case addr of AStr s \<Rightarrow> ip_address P s | AAddr a \<Rightarrow> Inr a) of
        Inl e \<Rightarrow> Inl e
      | Inr a \<Rightarrow> addr_list6 P addrs (addr_list @ [packed a]))"

definition LpmTableIPv6_lookup_batch ::
  "'e LpmTrieIPv6 \<Rightarrow> 128 word ip_text \<Rightarrow> 'e table \<Rightarrow> 128 word addr_arg list
     \<Rightarrow> int option list outcome" where
  "LpmTableIPv6_lookup_batch E P self addrs =
     (if closed self then Raise LpmClosedError
      else if addrs = [] then Return []
      else case addr_list6 P addrs [] of
             Inl e \<Rightarrow> Raise e
           | Inr addr_list \<Rightarrow>
               let result_array = replicate (length addrs) 0;
                   result_array' = t6_lookup_batch E (trie self) addr_list result_array
               in Return (map (\<lambda>r. if r \<noteq> INVALID_NEXT_HOP then Some r else None)
                            result_array'))"

definition LpmTableIPv6_close :: "'e LpmTrieIPv6 \<Rightarrow> 'e table \<Rightarrow> 'e table" where
  "LpmTableIPv6_close E self =
     (if \<not> closed self then self\<lparr>trie := t6_close E (trie self), closed := True\<rparr>
      else self)"

definition LpmTableIPv6_num_prefixes :: "'e LpmTrieIPv6 \<Rightarrow> 'e table \<Rightarrow> int" where
  "LpmTableIPv6_num_prefixes E self = t6_num_prefixes E (trie self)"

section \<open>The lookup engine\<close>

text \<open>
  Modelled from the spec: the classes \<^verbatim>\<open>_LpmTrieIPv4\<close> and \<^verbatim>\<open>_LpmTrieIPv6\<close> of the
  compiled module \<^verbatim>\<open>_liblpm\<close>, which is not among the sources. The model is the
  multi-level trie of the specification's sections 3 and 4: a node is an array of slots
  indexed by the address bits of its stride; a slot holds a leaf (a next-hop with the
  length of the prefix that owns it), a child node, both or neither. The strides are 8
  bits each for Stride8, 24 then 8 for DIR-24-8, 16 then 8 each for Wide16. An index is
  the list of the stride's bits, most significant first, and an array is a function of
  the index. Beside the trie the table records the stored prefixes with their next-hops
  (an insert of a stored prefix overwrites, a delete of a prefix that is not stored
  fails, the count of stored prefixes is reported); allocation never fails.
\<close>

type_synonym bits = "bool list"

datatype node = Node "bits \<Rightarrow> (int \<times> nat) option \<times> node option"

record lpm_trie =
  algorithm :: string
  strides :: "nat list"
  root :: node
  prefixes :: "(bits \<times> int) list"

text \<open>Modelled from the spec: an address or network as bits, most significant first.\<close>

definition bits_of_byte :: "8 word \<Rightarrow> bits" where
  "bits_of_byte b = map (bit b) (rev [0..<8])"

definition bits_of_bytes :: "8 word list \<Rightarrow> bits" where
  "bits_of_bytes bs = concat (map bits_of_byte bs)"

definition bits_of_uint32 :: "int \<Rightarrow> bits" where
  "bits_of_uint32 x = map (bit x) (rev [0..<32])"

text \<open>Modelled from the spec: a node array whose slots are all empty.\<close>

definition empty_node :: node where
  "empty_node = Node (\<lambda>i. (None, None))"

text \<open>
  Modelled from the spec: \<^verbatim>\<open>lookup\<close> of section 4.1. Descend stride by stride; a leaf in
  the current slot becomes the best match so far; continue while the slot has a child.
\<close>

fun node_lookup :: "nat list \<Rightarrow> node \<Rightarrow> bits \<Rightarrow> int option \<Rightarrow> int option" where
  "node_lookup [] n a best = best"
| "node_lookup (w # ws) (Node f) a best =
     (case f (take w a) of
        (lf, ch) \<Rightarrow>
          let best' = (case lf of Some (v, t) \<Rightarrow> Some v | None \<Rightarrow> best)
          in case ch of None \<Rightarrow> best' | Some c \<Rightarrow> node_lookup ws c (drop w a) best')"

text \<open>
  Modelled from the spec: \<^verbatim>\<open>insert\<close> of section 4.1. \<open>k\<close> is what is left of the prefix
  at this node and \<open>len\<close> its whole length. Where the prefix ends within the node's
  stride, it is written into every slot whose index starts with \<open>k\<close>, unless the slot
  holds the leaf of a longer prefix; a child is kept. Otherwise the walk goes on in the
  child of the slot, allocated if there is none.
\<close>

fun node_insert :: "nat list \<Rightarrow> node \<Rightarrow> bits \<Rightarrow> nat \<Rightarrow> int \<Rightarrow> node" where
  "node_insert [] n k len v = n"
| "node_insert (w # ws) (Node f) k len v =
     (if length k \<le> w then
        Node (\<lambda>i. if length i = w \<and> take (length k) i = k then
                     (case f i of
                        (lf, ch) \<Rightarrow>
                          (if (case lf of None \<Rightarrow> True | Some (u, t) \<Rightarrow> t \<le> len)
                           then Some (v, len) else lf, ch))
                   else f i)
      else
        (case f (take w k) of
           (lf, ch) \<Rightarrow>
             let c = (case ch of None \<Rightarrow> empty_node | Some c \<Rightarrow> c)
             in Node (f(take w k := (lf, Some (node_insert ws c (drop w k) len v))))))"

text \<open>
  Modelled from the spec: the less specific value that a slot falls back to. Among the
  stored prefixes \<open>R\<close>, the longest one that is the first \<open>l\<close> bits of \<open>key\<close> for a length
  \<open>l\<close> from \<open>lo\<close> to \<open>h\<close>, with its next-hop and length.
\<close>

fun longest_upto :: "(bits \<rightharpoonup> int) \<Rightarrow> bits \<Rightarrow> nat \<Rightarrow> nat \<Rightarrow> (int \<times> nat) option" where
  "longest_upto R key lo 0 =
     (if 0 < lo then None
      else case R [] of Some v \<Rightarrow> Some (v, 0) | None \<Rightarrow> None)"
| "longest_upto R key lo (Suc h) =
     (if Suc h < lo then None
      else case R (take (Suc h) key) of
             Some v \<Rightarrow> Some (v, Suc h)
           | None \<Rightarrow> longest_upto R key lo h)"

text \<open>
  Modelled from the spec: \<^verbatim>\<open>delete\<close> of section 4.1. \<open>R\<close> is what stays stored, \<open>key\<close>
  the deleted prefix, \<open>k\<close> what is left of it at this node, \<open>lo\<close> the shortest length
  that ends in this node. In the slots of the prefix's fan-out the leaf is cleared only
  where its length tag is the deleted prefix's; such a slot falls back to the stored
  prefix it shadowed within the node, or becomes empty.
\<close>

fun node_delete ::
  "nat list \<Rightarrow> (bits \<rightharpoonup> int) \<Rightarrow> node \<Rightarrow> bits \<Rightarrow> bits \<Rightarrow> nat \<Rightarrow> node" where
  "node_delete [] R n k key lo = n"
| "node_delete (w # ws) R (Node f) k key lo =
     (if length k \<le> w then
        Node (\<lambda>i. if length i = w \<and> take (length k) i = k then
                     (case f i of
                        (lf, ch) \<Rightarrow>
                          (if (case lf of None \<Rightarrow> False | Some (u, t) \<Rightarrow> t = length key)
                           then longest_upto R key lo (length key) else lf, ch))
                   else f i)
      else
        (case f (take w k) of
           (lf, ch) \<Rightarrow>
             (case ch of
                None \<Rightarrow> Node f
              | Some c \<Rightarrow>
                  let lo' = Suc (length key - length (drop w k))
                  in Node (f(take w k := (lf, Some (node_delete ws R c (drop w k) key lo')))))))"

text \<open>
  Modelled from the spec: construction. The stride widths of the three layouts, by
  family and algorithm tag, and the new empty table.
\<close>

definition strides_ipv4 :: "string \<Rightarrow> nat list" where
  "strides_ipv4 algo = (if algo = ''dir24'' then [24, 8] else [8, 8, 8, 8])"

definition strides_ipv6 :: "string \<Rightarrow> nat list" where
  "strides_ipv6 algo = (if algo = ''wide16'' then 16 # replicate 14 8 else replicate 16 8)"

definition trie_new :: "nat list \<Rightarrow> string \<Rightarrow> lpm_trie" where
  "trie_new ws algo = \<lparr>algorithm = algo, strides = ws, root = empty_node, prefixes = []\<rparr>"

text \<open>
  Modelled from the spec: \<^verbatim>\<open>insert(network_bytes, length, next_hop)\<close> of section 6 for a
  family of \<open>n\<close> address bytes. It fails (status \<open>-1\<close>) on a length that is invalid for
  the family; the prefix is the first \<open>len\<close> bits of the network.
\<close>

definition trie_add :: "nat \<Rightarrow> lpm_trie \<Rightarrow> 8 word list \<Rightarrow> nat \<Rightarrow> int \<Rightarrow> int \<times> lpm_trie" where
  "trie_add n e bs len next_hop =
     (if length bs \<noteq> n \<or> len > 8 * n then (- 1, e)
      else let key = take len (bits_of_bytes bs)
           in (0, e\<lparr>root := node_insert (strides e) (root e) key len next_hop,
                    prefixes := AList.update key next_hop (prefixes e)\<rparr>))"

text \<open>
  Modelled from the spec: \<^verbatim>\<open>delete(network_bytes, length)\<close> of section 6. It fails if
  the prefix is not stored.
\<close>

definition trie_delete :: "nat \<Rightarrow> lpm_trie \<Rightarrow> 8 word list \<Rightarrow> nat \<Rightarrow> int \<times> lpm_trie" where
  "trie_delete n e bs len =
     (if length bs \<noteq> n \<or> len > 8 * n then (- 1, e)
      else let key = take len (bits_of_bytes bs)
           in if map_of (prefixes e) key = None then (- 1, e)
              else let ps = AList.delete key (prefixes e)
                   in (0, e\<lparr>root := node_delete (strides e) (map_of ps) (root e) key key 0,
                            prefixes := ps\<rparr>))"

text \<open>
  Modelled from the spec: \<^verbatim>\<open>lookup(address)\<close> of section 6: the remembered next-hop, or
  the sentinel if none was ever set.
\<close>

definition trie_lookup :: "lpm_trie \<Rightarrow> bits \<Rightarrow> int" where
  "trie_lookup e a =
     (case node_lookup (strides e) (root e) a None of
        None \<Rightarrow> INVALID_NEXT_HOP
      | Some v \<Rightarrow> v)"

text \<open>
  Modelled from the spec: the batch dispatcher of section 4.4. It iterates the address
  array and writes each result into the output array at the same index.
\<close>

function batch_loop :: "('k \<Rightarrow> int) \<Rightarrow> 'k list \<Rightarrow> int list \<Rightarrow> nat \<Rightarrow> int list" where
  "batch_loop lk addrs results i =
     (if i < length addrs then batch_loop lk addrs (results[i := lk (addrs ! i)]) (Suc i)
      else results)"
  by pat_completeness auto
termination
  by (relation "measure (\<lambda>(lk, addrs, results, i). length addrs - i)") auto

text \<open>Modelled from the spec: \<^verbatim>\<open>close\<close> releases everything the table owns.\<close>

definition trie_close :: "lpm_trie \<Rightarrow> lpm_trie" where
  "trie_close e = e\<lparr>root := empty_node, prefixes := []\<rparr>"

text \<open>
  Modelled from the spec: the two classes of the compiled module, as the wrapper calls
  them. The IPv4 class takes an address as a 32-bit integer, the IPv6 class as 16 bytes.
\<close>

definition engine_ipv4 :: "lpm_trie LpmTrieIPv4" where
  "engine_ipv4 =
     \<lparr>t4_new = (\<lambda>algo. trie_new (strides_ipv4 algo) algo),
      t4_add = trie_add 4,
      t4_delete = trie_delete 4,
      t4_lookup = (\<lambda>e x. trie_lookup e (bits_of_uint32 x)),
      t4_lookup_batch =
        (\<lambda>e addrs results. batch_loop (\<lambda>x. trie_lookup e (bits_of_uint32 x)) addrs results 0),
      t4_close = trie_close,
      t4_num_prefixes = (\<lambda>e. int (length (prefixes e)))\<rparr>"

definition engine_ipv6 :: "lpm_trie LpmTrieIPv6" where
  "engine_ipv6 =
     \<lparr>t6_new = (\<lambda>algo. trie_new (strides_ipv6 algo) algo),
      t6_add = trie_add 16,
      t6_delete = trie_delete 16,
      t6_lookup = (\<lambda>e bs. trie_lookup e (bits_of_bytes bs)),
      t6_lookup_batch =
        (\<lambda>e addrs results. batch_loop (\<lambda>bs. trie_lookup e (bits_of_bytes bs)) addrs results 0),
      t6_close = trie_close,
      t6_num_prefixes = (\<lambda>e. int (length (prefixes e)))\<rparr>"

section \<open>Specification vocabulary\<close>

text \<open>
  The bits of an address, most significant first; the bits of a network that are its
  prefix; and when a network covers an address: the address under the network's mask is
  the network address.
\<close>

definition wbits :: "'a :: len word \<Rightarrow> bits" where
  "wbits a = map (bit a) (rev [0..<LENGTH('a)])"

definition prefix_key :: "'a :: len word ip_network \<Rightarrow> bits" where
  "prefix_key n = take (prefixlen n) (wbits (network_address n))"

definition covers :: "'a :: len word ip_network \<Rightarrow> 'a word \<Rightarrow> bool" where
  "covers n a \<longleftrightarrow> a AND netmask (prefixlen n) = network_address n"

section \<open>The invariant of the trie\<close>

text \<open>
  What the proofs maintain about a node that is reached by the path \<open>p\<close>, for the stored
  prefixes \<open>R\<close>: the leaf of the slot \<open>i\<close> is the longest stored prefix of \<open>p @ i\<close> among
  the lengths that end in this node (from \<open>lo\<close> to the end of the stride); a slot without
  a child has no stored prefix below it; a child satisfies the same for its own lengths.
\<close>

fun node_inv :: "(bits \<rightharpoonup> int) \<Rightarrow> nat list \<Rightarrow> bits \<Rightarrow> nat \<Rightarrow> node \<Rightarrow> bool" where
  "node_inv R [] p lo n = True"
| "node_inv R (w # ws) p lo (Node f) =
     (\<forall>i. length i = w \<longrightarrow>
        (case f i of
           (lf, ch) \<Rightarrow>
             lf = longest_upto R (p @ i) lo (length p + w) \<and>
             (case ch of
                None \<Rightarrow> (\<forall>k. length p + w < length k \<and> take (length p + w) k = p @ i \<longrightarrow> R k = None)
              | Some c \<Rightarrow> node_inv R ws (p @ i) (Suc (length p + w)) c)))"

definition trie_inv :: "nat \<Rightarrow> lpm_trie \<Rightarrow> bool" where
  "trie_inv nb e \<longleftrightarrow>
     node_inv (map_of (prefixes e)) (strides e) [] 0 (root e) \<and>
     sum_list (strides e) = 8 * nb \<and> strides e \<noteq> []"

(*DEFS_END*)
section \<open>Closing a table\<close>

lemma LpmTableIPv4_close_closed: "closed (LpmTableIPv4_close E t)"
  by (simp add: LpmTableIPv4_close_def)

lemma LpmTableIPv6_close_closed: "closed (LpmTableIPv6_close E t)"
  by (simp add: LpmTableIPv6_close_def)

lemma LpmTableIPv4_close_again: "closed t \<Longrightarrow> LpmTableIPv4_close E t = t"
  by (simp add: LpmTableIPv4_close_def)

lemma LpmTableIPv6_close_again: "closed t \<Longrightarrow> LpmTableIPv6_close E t = t"
  by (simp add: LpmTableIPv6_close_def)

lemma funpow_fixed: "f x = x \<Longrightarrow> (f ^^ n) x = x"
  by (induction n) simp_all

text \<open>
  C6. Once \<^verbatim>\<open>close()\<close> has been called on a table, of either class, every \<^verbatim>\<open>insert\<close>,
  \<^verbatim>\<open>delete\<close>, \<^verbatim>\<open>lookup\<close> and \<^verbatim>\<open>lookup_batch\<close> raises \<^verbatim>\<open>LpmClosedError\<close>, whatever its
  arguments and whatever the engine is; the table, and with it the engine, is left as
  it was, so the same holds for every later call.
\<close>

theorem operations_after_close:
  fixes E4 :: "'e LpmTrieIPv4" and E6 :: "'f LpmTrieIPv6"
  shows
    "(let c = LpmTableIPv4_close E4 t in
        closed c \<and>
        LpmTableIPv4_insert E4 P4 c p v = (Raise LpmClosedError, c) \<and>
        LpmTableIPv4_delete E4 P4 c p = (Raise LpmClosedError, c) \<and>
        LpmTableIPv4_lookup E4 P4 c a = Raise LpmClosedError \<and>
        LpmTableIPv4_lookup_batch E4 P4 c as = Raise LpmClosedError) \<and>
     (let c = LpmTableIPv6_close E6 u in
        closed c \<and>
        LpmTableIPv6_insert E6 P6 c q v = (Raise LpmClosedError, c) \<and>
        LpmTableIPv6_delete E6 P6 c q = (Raise LpmClosedError, c) \<and>
        LpmTableIPv6_lookup E6 P6 c b = Raise LpmClosedError \<and>
        LpmTableIPv6_lookup_batch E6 P6 c bs = Raise LpmClosedError)"
  by (simp add: Let_def LpmTableIPv4_close_closed LpmTableIPv6_close_closed
      LpmTableIPv4_insert_def LpmTableIPv4_delete_def LpmTableIPv4_lookup_def
      LpmTableIPv4_lookup_batch_def LpmTableIPv6_insert_def LpmTableIPv6_delete_def
      LpmTableIPv6_lookup_def LpmTableIPv6_lookup_batch_def)

text \<open>
  C7. \<^verbatim>\<open>close()\<close> is idempotent in both classes: after the first call, any number \<open>n\<close> of
  further calls leaves the table exactly as the first call left it, and the \<^verbatim>\<open>closed\<close>
  property is true. \<^verbatim>\<open>close\<close> has no raising branch.
\<close>

theorem close_idempotent:
  fixes E4 :: "'e LpmTrieIPv4" and E6 :: "'f LpmTrieIPv6"
  shows
    "(LpmTableIPv4_close E4 ^^ n) (LpmTableIPv4_close E4 t) = LpmTableIPv4_close E4 t \<and>
     closed (LpmTableIPv4_close E4 t) \<and>
     (LpmTableIPv6_close E6 ^^ n) (LpmTableIPv6_close E6 u) = LpmTableIPv6_close E6 u \<and>
     closed (LpmTableIPv6_close E6 u)"
  by (simp add: funpow_fixed LpmTableIPv4_close_again LpmTableIPv6_close_again
      LpmTableIPv4_close_closed LpmTableIPv6_close_closed)

(*HELPERS*)
section \<open>Prefixes as bits\<close>

lemma bit_netmask_iff:
  "bit (netmask l :: 'a :: len word) i \<longleftrightarrow> i < LENGTH('a) \<and> LENGTH('a) \<le> l + i"
  by (auto simp add: netmask_def bit_simps)

lemma netmask_idem:
  "(a AND netmask l) AND netmask l = (a AND netmask l :: 'a :: len word)"
  by (simp add: and.assoc)

lemma host_bits_zero:
  "take_bit (LENGTH('a) - l) (a AND netmask l) = (0 :: 'a :: len word)"
  by (rule bit_eqI) (auto simp add: bit_simps bit_netmask_iff)

lemma to_network_PStr:
  fixes P :: "'a :: len word ip_text"
  assumes "interface_of_text P s = Some (addr, plen)" and "plen \<le> LENGTH('a)"
  shows "to_network P (PStr s) = Inr (IPNetwork (addr AND netmask plen) plen)"
  using assms by (auto simp add: to_network_def ip_network_ctor_def)

lemma to_network_PNet: "to_network P (PNet n) = Inr n"
  by (simp add: to_network_def)


lemma rev_upt_4: "rev [0..<4::nat] = [3, 2, 1, 0]"
  by code_simp

lemma rev_upt_8: "rev [0..<8::nat] = [7, 6, 5, 4, 3, 2, 1, 0]"
  by code_simp

lemma rev_upt_32: "rev [0..<32::nat] =
  [31, 30, 29, 28, 27, 26, 25, 24, 23, 22, 21, 20, 19, 18, 17, 16,
   15, 14, 13, 12, 11, 10, 9, 8, 7, 6, 5, 4, 3, 2, 1, 0]"
  by code_simp

lemma packed32: "packed (a :: 32 word) =
  [ucast (drop_bit 24 a), ucast (drop_bit 16 a), ucast (drop_bit 8 a), ucast a]"
  by (simp add: packed_def rev_upt_4)

lemma bits_of_bytes_packed32: "bits_of_bytes (packed (a :: 32 word)) = wbits a"
  by (simp add: packed32 bits_of_bytes_def bits_of_byte_def wbits_def rev_upt_8 rev_upt_32
      bit_simps)

lemma uint_byte: "uint (ucast (drop_bit k (a :: 32 word)) :: 8 word) = uint a div 2 ^ k mod 256"
proof -
  have "uint (ucast (drop_bit k a) :: 8 word) = take_bit 8 (uint (drop_bit k a))"
    by (simp only: unsigned_ucast_eq len_bit0 len_num1) simp
  also have "uint (drop_bit k a) = drop_bit k (take_bit 32 (uint a))"
    by (simp only: unsigned_drop_bit_eq) simp
  also have "take_bit 32 (uint a) = uint a"
    using take_bit_int_eq_self_iff [of 32 "uint a"] uint_lt2p [of a] by simp
  finally show ?thesis
    by (simp only: take_bit_eq_mod drop_bit_eq_div) simp
qed

lemma recombine_bytes:
  fixes x :: int
  assumes "x = q1 * 256 + r0" and "q1 = q2 * 256 + r1" and "q2 = q3 * 256 + r2"
  shows "((q3 * 256 + r2) * 256 + r1) * 256 + r0 = x"
  using assms by simp

lemma from_bytes_packed32: "int_from_bytes_big (packed (a :: 32 word)) = uint a"
proof -
  define x where "x = uint a"
  have b: "0 \<le> x" "x < 4294967296"
    using uint_lt2p [of a] by (simp_all add: x_def)
  have d1: "x div 65536 = x div 256 div 256"
    using zdiv_zmult2_eq [of 256 x 256] by simp
  have d2: "x div 16777216 = x div 65536 div 256"
    using zdiv_zmult2_eq [of 256 x 65536] by simp
  have "x div 16777216 < 256" using b by simp
  moreover have "0 \<le> x div 16777216" using b by simp
  ultimately have top: "x div 16777216 mod 256 = x div 16777216" by simp
  have e0: "x = x div 256 * 256 + x mod 256" by simp
  have e1: "x div 256 = x div 65536 * 256 + x div 256 mod 256"
    unfolding d1 by simp
  have e2: "x div 65536 = x div 16777216 * 256 + x div 65536 mod 256"
    unfolding d2 by simp
  have "((x div 16777216 * 256 + x div 65536 mod 256) * 256 + x div 256 mod 256) * 256
          + x mod 256 = x"
    using e0 e1 e2 by (rule recombine_bytes)
  then have all: "((x div 16777216 mod 256 * 256 + x div 65536 mod 256) * 256
          + x div 256 mod 256) * 256 + x mod 256 = x"
    by (simp only: top)
  have bytes: "int_from_bytes_big (packed a) =
      ((uint (ucast (drop_bit 24 a) :: 8 word) * 256
        + uint (ucast (drop_bit 16 a) :: 8 word)) * 256
        + uint (ucast (drop_bit 8 a) :: 8 word)) * 256
        + uint (ucast (drop_bit 0 a) :: 8 word)"
    by (simp add: int_from_bytes_big_def packed32)
  have u24: "uint (ucast (drop_bit 24 a) :: 8 word) = x div 16777216 mod 256"
    using uint_byte [of 24 a] by (simp add: x_def)
  have u16: "uint (ucast (drop_bit 16 a) :: 8 word) = x div 65536 mod 256"
    using uint_byte [of 16 a] by (simp add: x_def)
  have u8: "uint (ucast (drop_bit 8 a) :: 8 word) = x div 256 mod 256"
    using uint_byte [of 8 a] by (simp add: x_def)
  have u0: "uint (ucast (drop_bit 0 a) :: 8 word) = x mod 256"
    using uint_byte [of 0 a] by (simp add: x_def)
  have "int_from_bytes_big (packed a) = x"
    by (simp only: bytes u24 u16 u8 u0 all)
  then show ?thesis by (simp only: x_def)
qed

lemma bits_of_uint32_packed32:
  "bits_of_uint32 (int_from_bytes_big (packed (a :: 32 word))) = wbits a"
  by (simp add: from_bytes_packed32 bits_of_uint32_def wbits_def bit_uint_iff)

lemma length_wbits: "length (wbits (a :: 'a :: len word)) = LENGTH('a)"
  by (simp add: wbits_def)

lemma wbits_nth:
  assumes "j < LENGTH('a)"
  shows "wbits (a :: 'a :: len word) ! j = bit a (LENGTH('a) - Suc j)"
  using assms by (simp add: wbits_def rev_nth)

lemma take_wbits_eq_iff:
  fixes a b :: "'a :: len word"
  assumes "l \<le> LENGTH('a)"
  shows "take l (wbits a) = take l (wbits b) \<longleftrightarrow>
           (\<forall>i. LENGTH('a) - l \<le> i \<and> i < LENGTH('a) \<longrightarrow> bit a i = bit b i)"
proof (rule iffI)
  assume e: "take l (wbits a) = take l (wbits b)"
  show "\<forall>i. LENGTH('a) - l \<le> i \<and> i < LENGTH('a) \<longrightarrow> bit a i = bit b i"
  proof (intro allI impI)
    fix i assume i: "LENGTH('a) - l \<le> i \<and> i < LENGTH('a)"
    define j where "j = LENGTH('a) - Suc i"
    have j: "j < l" "j < LENGTH('a)" "LENGTH('a) - Suc j = i"
      using i assms by (simp_all add: j_def) arith+
    have "take l (wbits a) ! j = take l (wbits b) ! j" using e by simp
    then have "wbits a ! j = wbits b ! j" using j(1) by simp
    then show "bit a i = bit b i" using wbits_nth [OF j(2)] j(3) by simp
  qed
next
  assume e: "\<forall>i. LENGTH('a) - l \<le> i \<and> i < LENGTH('a) \<longrightarrow> bit a i = bit b i"
  show "take l (wbits a) = take l (wbits b)"
  proof (rule nth_equalityI)
    show "length (take l (wbits a)) = length (take l (wbits b))"
      by (simp add: length_wbits)
    fix j assume "j < length (take l (wbits a))"
    then have j: "j < l" "j < LENGTH('a)" using assms by (simp_all add: length_wbits)
    have "LENGTH('a) - l \<le> LENGTH('a) - Suc j \<and> LENGTH('a) - Suc j < LENGTH('a)"
      using j by arith
    then have "bit a (LENGTH('a) - Suc j) = bit b (LENGTH('a) - Suc j)" using e by blast
    then have "wbits a ! j = wbits b ! j" using wbits_nth [OF j(2)] by simp
    then show "take l (wbits a) ! j = take l (wbits b) ! j" using j(1) by simp
  qed
qed

lemma wf_network_bits:
  fixes n :: "'a :: len word ip_network"
  assumes "wf_network n" and "bit (network_address n) i"
  shows "LENGTH('a) \<le> prefixlen n + i"
proof -
  have "network_address n AND netmask (prefixlen n) = network_address n"
    using assms(1) by (simp add: wf_network_def)
  then have "bit (network_address n AND netmask (prefixlen n)) i" using assms(2) by simp
  then show ?thesis by (simp add: bit_simps bit_netmask_iff)
qed

lemma covers_iff:
  fixes n :: "'a :: len word ip_network"
  assumes "wf_network n"
  shows "covers n a \<longleftrightarrow> take (prefixlen n) (wbits a) = prefix_key n"
proof -
  have len: "prefixlen n \<le> LENGTH('a)" using assms by (simp add: wf_network_def)
  have "covers n a \<longleftrightarrow>
          (\<forall>i. LENGTH('a) - prefixlen n \<le> i \<and> i < LENGTH('a) \<longrightarrow>
                 bit a i = bit (network_address n) i)"
  proof (rule iffI)
    assume "covers n a"
    then have c: "a AND netmask (prefixlen n) = network_address n" by (simp add: covers_def)
    show "\<forall>i. LENGTH('a) - prefixlen n \<le> i \<and> i < LENGTH('a) \<longrightarrow>
                 bit a i = bit (network_address n) i"
    proof (intro allI impI)
      fix i assume i: "LENGTH('a) - prefixlen n \<le> i \<and> i < LENGTH('a)"
      then have "bit (netmask (prefixlen n) :: 'a word) i"
        by (simp add: bit_netmask_iff) arith
      then have "bit (a AND netmask (prefixlen n)) i = bit a i" by (simp add: bit_simps)
      then show "bit a i = bit (network_address n) i" using c by simp
    qed
  next
    assume e: "\<forall>i. LENGTH('a) - prefixlen n \<le> i \<and> i < LENGTH('a) \<longrightarrow>
                 bit a i = bit (network_address n) i"
    have "a AND netmask (prefixlen n) = network_address n"
    proof (rule bit_eqI)
      fix i
      show "bit (a AND netmask (prefixlen n)) i = bit (network_address n) i"
      proof (cases "i < LENGTH('a) \<and> LENGTH('a) \<le> prefixlen n + i")
        case True
        then have "LENGTH('a) - prefixlen n \<le> i \<and> i < LENGTH('a)" by arith
        then have "bit a i = bit (network_address n) i" using e by blast
        then show ?thesis using True by (simp add: bit_simps bit_netmask_iff)
      next
        case False
        have "\<not> bit (network_address n) i"
        proof
          assume b: "bit (network_address n) i"
          then have "i < LENGTH('a)" by (rule bit_imp_le_length)
          moreover have "LENGTH('a) \<le> prefixlen n + i" using wf_network_bits [OF assms b] .
          ultimately show False using False by simp
        qed
        then show ?thesis using False by (simp add: bit_simps bit_netmask_iff)
      qed
    qed
    then show "covers n a" by (simp add: covers_def)
  qed
  also have "\<dots> \<longleftrightarrow> take (prefixlen n) (wbits a) = take (prefixlen n) (wbits (network_address n))"
    using take_wbits_eq_iff [OF len, of a "network_address n"] by simp
  finally show ?thesis by (simp add: prefix_key_def)
qed

lemma length_prefix_key:
  fixes n :: "'a :: len word ip_network"
  assumes "wf_network n"
  shows "length (prefix_key n) = prefixlen n"
  using assms by (simp add: prefix_key_def wf_network_def length_wbits)

lemma prefix_key_inj:
  fixes n m :: "'a :: len word ip_network"
  assumes "wf_network n" and "wf_network m" and "prefix_key n = prefix_key m"
  shows "n = m"
proof -
  have l: "prefixlen n = prefixlen m"
    using length_prefix_key [OF assms(1)] length_prefix_key [OF assms(2)] assms(3) by simp
  have len: "prefixlen n \<le> LENGTH('a)" using assms(1) by (simp add: wf_network_def)
  have "take (prefixlen n) (wbits (network_address n)) =
        take (prefixlen n) (wbits (network_address m))"
    using assms(3) l by (simp add: prefix_key_def)
  then have e: "\<forall>i. LENGTH('a) - prefixlen n \<le> i \<and> i < LENGTH('a) \<longrightarrow>
                 bit (network_address n) i = bit (network_address m) i"
    using take_wbits_eq_iff [OF len] by blast
  have "network_address n = network_address m"
  proof (rule bit_eqI)
    fix i
    show "bit (network_address n) i = bit (network_address m) i"
    proof (cases "i < LENGTH('a) \<and> LENGTH('a) \<le> prefixlen n + i")
      case True
      then have "LENGTH('a) - prefixlen n \<le> i \<and> i < LENGTH('a)" by arith
      then show ?thesis using e by blast
    next
      case False
      have "\<not> bit (network_address n) i"
      proof
        assume b: "bit (network_address n) i"
        then have "i < LENGTH('a)" by (rule bit_imp_le_length)
        moreover have "LENGTH('a) \<le> prefixlen n + i" using wf_network_bits [OF assms(1) b] .
        ultimately show False using False by simp
      qed
      moreover have "\<not> bit (network_address m) i"
      proof
        assume b: "bit (network_address m) i"
        then have "i < LENGTH('a)" by (rule bit_imp_le_length)
        moreover have "LENGTH('a) \<le> prefixlen m + i" using wf_network_bits [OF assms(2) b] .
        ultimately show False using False l by simp
      qed
      ultimately show ?thesis by simp
    qed
  qed
  then show ?thesis using l by (simp add: ip_network.expand)
qed

section \<open>The trie keeps its invariant\<close>

lemma longest_upto_None_iff:
  "longest_upto R key lo h = None \<longleftrightarrow> (\<forall>l. lo \<le> l \<and> l \<le> h \<longrightarrow> R (take l key) = None)"
proof (induction h)
  case 0
  show ?case
  proof (cases "0 < lo")
    case True
    then show ?thesis by simp
  next
    case False
    then have lo: "lo = 0" by simp
    show ?thesis
    proof (cases "R []")
      case None
      then show ?thesis using lo by simp
    next
      case (Some u)
      have "\<not> (\<forall>l. lo \<le> l \<and> l \<le> 0 \<longrightarrow> R (take l key) = None)"
      proof
        assume "\<forall>l. lo \<le> l \<and> l \<le> 0 \<longrightarrow> R (take l key) = None"
        then have "lo \<le> 0 \<and> (0::nat) \<le> 0 \<longrightarrow> R (take 0 key) = None" by (rule spec)
        then have "R (take 0 key) = None" using lo by simp
        then show False using Some by simp
      qed
      moreover have "longest_upto R key lo 0 \<noteq> None" using lo Some by simp
      ultimately show ?thesis by blast
    qed
  qed
next
  case (Suc h)
  show ?case
  proof (cases "Suc h < lo")
    case True
    then have "\<not> (lo \<le> l \<and> l \<le> Suc h)" for l by arith
    then have "\<forall>l. lo \<le> l \<and> l \<le> Suc h \<longrightarrow> R (take l key) = None" by blast
    moreover have "longest_upto R key lo (Suc h) = None" using True by simp
    ultimately show ?thesis by blast
  next
    case False
    show ?thesis
    proof (cases "R (take (Suc h) key)")
      case None
      have lhs: "longest_upto R key lo (Suc h) = longest_upto R key lo h"
        using False None by simp
      have "(\<forall>l. lo \<le> l \<and> l \<le> Suc h \<longrightarrow> R (take l key) = None) \<longleftrightarrow>
            (\<forall>l. lo \<le> l \<and> l \<le> h \<longrightarrow> R (take l key) = None)"
      proof (rule iffI)
        assume a: "\<forall>l. lo \<le> l \<and> l \<le> Suc h \<longrightarrow> R (take l key) = None"
        show "\<forall>l. lo \<le> l \<and> l \<le> h \<longrightarrow> R (take l key) = None"
        proof (intro allI impI)
          fix l assume "lo \<le> l \<and> l \<le> h"
          then have "lo \<le> l \<and> l \<le> Suc h" by arith
          then show "R (take l key) = None" using a by blast
        qed
      next
        assume a: "\<forall>l. lo \<le> l \<and> l \<le> h \<longrightarrow> R (take l key) = None"
        show "\<forall>l. lo \<le> l \<and> l \<le> Suc h \<longrightarrow> R (take l key) = None"
        proof (intro allI impI)
          fix l assume l: "lo \<le> l \<and> l \<le> Suc h"
          show "R (take l key) = None"
          proof (cases "l = Suc h")
            case True
            then show ?thesis using None by simp
          next
            case False
            then have "lo \<le> l \<and> l \<le> h" using l by arith
            then show ?thesis using a by blast
          qed
        qed
      qed
      then show ?thesis using lhs Suc.IH by simp
    next
      case (Some u)
      have lhs: "longest_upto R key lo (Suc h) \<noteq> None"
        using False Some by simp
      have rhs: "\<not> (\<forall>l. lo \<le> l \<and> l \<le> Suc h \<longrightarrow> R (take l key) = None)"
      proof
        assume "\<forall>l. lo \<le> l \<and> l \<le> Suc h \<longrightarrow> R (take l key) = None"
        then have "lo \<le> Suc h \<and> Suc h \<le> Suc h \<longrightarrow> R (take (Suc h) key) = None"
          by (rule spec)
        moreover have "lo \<le> Suc h" using False by arith
        ultimately have "R (take (Suc h) key) = None" by simp
        then show False unfolding Some by simp
      qed
      show ?thesis using lhs rhs by blast
    qed
  qed
qed

lemma longest_upto_Some_iff:
  "longest_upto R key lo h = Some (v, t) \<longleftrightarrow>
     lo \<le> t \<and> t \<le> h \<and> R (take t key) = Some v \<and>
     (\<forall>l. t < l \<and> l \<le> h \<longrightarrow> R (take l key) = None)"
proof (induction h)
  case 0
  show ?case
  proof (cases "0 < lo")
    case True
    then show ?thesis by simp
  next
    case False
    then have lo: "lo = 0" by simp
    show ?thesis
    proof (cases "R []")
      case None
      then show ?thesis using lo by (cases "t = 0") simp_all
    next
      case (Some u)
      then show ?thesis using lo by (cases "t = 0") auto
    qed
  qed
next
  case (Suc h)
  show ?case
  proof (cases "Suc h < lo")
    case True
    then have "\<not> (lo \<le> t \<and> t \<le> Suc h)" by arith
    then show ?thesis using True by simp
  next
    case False
    show ?thesis
    proof (cases "R (take (Suc h) key)")
      case None
      have lhs: "longest_upto R key lo (Suc h) = longest_upto R key lo h"
        using False None by simp
      show ?thesis
      proof (rule iffI)
        assume "longest_upto R key lo (Suc h) = Some (v, t)"
        then have a: "lo \<le> t \<and> t \<le> h \<and> R (take t key) = Some v \<and>
           (\<forall>l. t < l \<and> l \<le> h \<longrightarrow> R (take l key) = None)"
          using lhs Suc.IH by simp
        have "R (take l key) = None" if "t < l" "l \<le> Suc h" for l
        proof (cases "l = Suc h")
          case True
          then show ?thesis using None by simp
        next
          case False
          then have "l \<le> h" using that by arith
          then show ?thesis using a that by blast
        qed
        moreover have "t \<le> Suc h" using a by arith
        ultimately show "lo \<le> t \<and> t \<le> Suc h \<and> R (take t key) = Some v \<and>
           (\<forall>l. t < l \<and> l \<le> Suc h \<longrightarrow> R (take l key) = None)"
          using a by blast
      next
        assume b: "lo \<le> t \<and> t \<le> Suc h \<and> R (take t key) = Some v \<and>
           (\<forall>l. t < l \<and> l \<le> Suc h \<longrightarrow> R (take l key) = None)"
        have "t \<noteq> Suc h" using b None by auto
        then have "t \<le> h" using b by arith
        moreover have "\<forall>l. t < l \<and> l \<le> h \<longrightarrow> R (take l key) = None"
          using b by auto
        ultimately have "longest_upto R key lo h = Some (v, t)"
          using b Suc.IH by blast
        then show "longest_upto R key lo (Suc h) = Some (v, t)"
          using lhs by simp
      qed
    next
      case (Some u)
      have lhs: "longest_upto R key lo (Suc h) = Some (u, Suc h)"
        using False Some by simp
      show ?thesis
      proof (rule iffI)
        assume "longest_upto R key lo (Suc h) = Some (v, t)"
        then have ut: "u = v" "t = Suc h" using lhs by simp_all
        have "\<not> (t < l \<and> l \<le> Suc h)" for l using ut by arith
        then have "\<forall>l. t < l \<and> l \<le> Suc h \<longrightarrow> R (take l key) = None" by blast
        moreover have "lo \<le> t" "t \<le> Suc h" using ut False by arith+
        moreover have "R (take t key) = Some v" using ut Some by simp
        ultimately show "lo \<le> t \<and> t \<le> Suc h \<and> R (take t key) = Some v \<and>
           (\<forall>l. t < l \<and> l \<le> Suc h \<longrightarrow> R (take l key) = None)"
          by blast
      next
        assume b: "lo \<le> t \<and> t \<le> Suc h \<and> R (take t key) = Some v \<and>
           (\<forall>l. t < l \<and> l \<le> Suc h \<longrightarrow> R (take l key) = None)"
        have "\<not> t < Suc h"
        proof
          assume "t < Suc h"
          then have "R (take (Suc h) key) = None" using b by blast
          then show False using Some by simp
        qed
        then have t: "t = Suc h" using b by arith
        then have "u = v" using b Some by simp
        then show "longest_upto R key lo (Suc h) = Some (v, t)"
          using lhs t by simp
      qed
    qed
  qed
qed

lemma longest_upto_cong:
  assumes "\<And>l. lo \<le> l \<Longrightarrow> l \<le> h \<Longrightarrow> R' (take l key') = R (take l key)"
  shows "longest_upto R' key' lo h = longest_upto R key lo h"
proof (cases "longest_upto R key lo h")
  case None
  then have n: "\<forall>l. lo \<le> l \<and> l \<le> h \<longrightarrow> R (take l key) = None"
    by (rule iffD1 [OF longest_upto_None_iff])
  have "\<forall>l. lo \<le> l \<and> l \<le> h \<longrightarrow> R' (take l key') = None"
  proof (intro allI impI)
    fix l assume l: "lo \<le> l \<and> l \<le> h"
    then have "R' (take l key') = R (take l key)" using assms by blast
    then show "R' (take l key') = None" using n l by simp
  qed
  then have "longest_upto R' key' lo h = None"
    by (rule iffD2 [OF longest_upto_None_iff])
  then show ?thesis using None by simp
next
  case (Some x)
  obtain v t where x: "x = (v, t)" by (cases x)
  have c: "lo \<le> t \<and> t \<le> h \<and> R (take t key) = Some v \<and>
     (\<forall>l. t < l \<and> l \<le> h \<longrightarrow> R (take l key) = None)"
    using Some [unfolded x longest_upto_Some_iff] .
  have 1: "R' (take t key') = Some v"
    using assms [of t] c by simp
  have 2: "\<forall>l. t < l \<and> l \<le> h \<longrightarrow> R' (take l key') = None"
  proof (intro allI impI)
    fix l assume l: "t < l \<and> l \<le> h"
    then have "lo \<le> l" using c by arith
    then have "R' (take l key') = R (take l key)" using assms l by blast
    then show "R' (take l key') = None" using c l by simp
  qed
  have "lo \<le> t \<and> t \<le> h \<and> R' (take t key') = Some v \<and>
     (\<forall>l. t < l \<and> l \<le> h \<longrightarrow> R' (take l key') = None)"
    using c 1 2 by blast
  then have "longest_upto R' key' lo h = Some (v, t)"
    by (rule iffD2 [OF longest_upto_Some_iff])
  then show ?thesis using Some x by simp
qed

lemma longest_upto_split:
  assumes "lo \<le> Suc m" and "m \<le> h"
  shows "longest_upto R key lo h =
           (case longest_upto R key (Suc m) h of
              Some x \<Rightarrow> Some x
            | None \<Rightarrow> longest_upto R key lo m)"
proof (cases "longest_upto R key (Suc m) h")
  case upNone: None
  have up: "\<And>l. Suc m \<le> l \<Longrightarrow> l \<le> h \<Longrightarrow> R (take l key) = None"
    using upNone [unfolded longest_upto_None_iff] by blast
  show ?thesis
  proof (cases "longest_upto R key lo m")
    case None
    have low: "\<And>l. lo \<le> l \<Longrightarrow> l \<le> m \<Longrightarrow> R (take l key) = None"
      using None [unfolded longest_upto_None_iff] by blast
    have "R (take l key) = None" if "lo \<le> l" "l \<le> h" for l
    proof (cases "l \<le> m")
      case True
      then show ?thesis using low that by blast
    next
      case False
      then have "Suc m \<le> l" by arith
      then show ?thesis using up that by blast
    qed
    then have "\<forall>l. lo \<le> l \<and> l \<le> h \<longrightarrow> R (take l key) = None"
      by blast
    then have "longest_upto R key lo h = None"
      by (rule iffD2 [OF longest_upto_None_iff])
    then show ?thesis by (simp only: upNone None option.case)
  next
    case (Some x)
    obtain v t where x: "x = (v, t)" by (cases x)
    have c: "lo \<le> t \<and> t \<le> m \<and> R (take t key) = Some v \<and>
      (\<forall>l. t < l \<and> l \<le> m \<longrightarrow> R (take l key) = None)"
      using Some [unfolded x longest_upto_Some_iff] .
    have "R (take l key) = None" if "t < l" "l \<le> h" for l
    proof (cases "l \<le> m")
      case True
      then show ?thesis using c that by blast
    next
      case False
      then have "Suc m \<le> l" by arith
      then show ?thesis using up that by blast
    qed
    moreover have "t \<le> h" using c assms by arith
    ultimately have "lo \<le> t \<and> t \<le> h \<and> R (take t key) = Some v \<and>
      (\<forall>l. t < l \<and> l \<le> h \<longrightarrow> R (take l key) = None)"
      using c by blast
    then have "longest_upto R key lo h = Some (v, t)"
      by (rule iffD2 [OF longest_upto_Some_iff])
    then show ?thesis by (simp only: upNone Some x option.case)
  qed
next
  case (Some x)
  obtain v t where x: "x = (v, t)" by (cases x)
  have c: "Suc m \<le> t \<and> t \<le> h \<and> R (take t key) = Some v \<and>
    (\<forall>l. t < l \<and> l \<le> h \<longrightarrow> R (take l key) = None)"
    using Some [unfolded x longest_upto_Some_iff] .
  moreover have "lo \<le> t" using c assms by arith
  ultimately have "lo \<le> t \<and> t \<le> h \<and> R (take t key) = Some v \<and>
    (\<forall>l. t < l \<and> l \<le> h \<longrightarrow> R (take l key) = None)"
    by blast
  then have "longest_upto R key lo h = Some (v, t)"
    by (rule iffD2 [OF longest_upto_Some_iff])
  then show ?thesis by (simp only: Some x option.case)
qed


lemma node_inv_slot:
  assumes "node_inv R (w # ws) p lo (Node f)" and "length i = w" and "f i = (lf, ch)"
  shows "lf = longest_upto R (p @ i) lo (length p + w)"
    and "ch = None \<Longrightarrow> length p + w < length k \<Longrightarrow> take (length p + w) k = p @ i \<Longrightarrow> R k = None"
    and "ch = Some c \<Longrightarrow> node_inv R ws (p @ i) (Suc (length p + w)) c"
proof -
  have a: "case f i of (lf, ch) \<Rightarrow>
             lf = longest_upto R (p @ i) lo (length p + w) \<and>
             (case ch of
                None \<Rightarrow> (\<forall>k. length p + w < length k \<and> take (length p + w) k = p @ i \<longrightarrow> R k = None)
              | Some c \<Rightarrow> node_inv R ws (p @ i) (Suc (length p + w)) c)"
    using assms(1,2) by simp
  show "lf = longest_upto R (p @ i) lo (length p + w)"
    using a assms(3) by simp
  show "ch = None \<Longrightarrow> length p + w < length k \<Longrightarrow> take (length p + w) k = p @ i \<Longrightarrow> R k = None"
    using a assms(3) by simp
  show "ch = Some c \<Longrightarrow> node_inv R ws (p @ i) (Suc (length p + w)) c"
    using a assms(3) by simp
qed

lemma node_inv_intro:
  assumes "\<And>i lf ch. length i = w \<Longrightarrow> f i = (lf, ch) \<Longrightarrow>
             lf = longest_upto R (p @ i) lo (length p + w) \<and>
             (ch = None \<longrightarrow> (\<forall>k. length p + w < length k \<and> take (length p + w) k = p @ i \<longrightarrow> R k = None)) \<and>
             (\<forall>c. ch = Some c \<longrightarrow> node_inv R ws (p @ i) (Suc (length p + w)) c)"
  shows "node_inv R (w # ws) p lo (Node f)"
proof -
  have "case f i of (lf, ch) \<Rightarrow>
             lf = longest_upto R (p @ i) lo (length p + w) \<and>
             (case ch of
                None \<Rightarrow> (\<forall>k. length p + w < length k \<and> take (length p + w) k = p @ i \<longrightarrow> R k = None)
              | Some c \<Rightarrow> node_inv R ws (p @ i) (Suc (length p + w)) c)"
    if "length i = w" for i
  proof -
    obtain lf ch where fi: "f i = (lf, ch)" by (cases "f i")
    show ?thesis using assms [OF that fi] fi by (cases ch) simp_all
  qed
  then show ?thesis by simp
qed

lemma take_take_app:
  assumes "l \<le> length p + w" and "length i = w" and "length p \<le> l"
  shows "length (take l (p @ i)) = l" and "take (length p) (take l (p @ i)) = p"
  using assms by (auto simp add: min_def)

lemma node_inv_cong:
  assumes "node_inv R ws p lo n"
    and "length p \<le> lo" and "lo \<le> Suc (length p)"
    and "\<And>k. lo \<le> length k \<Longrightarrow> take (length p) k = p \<Longrightarrow> R' k = R k"
  shows "node_inv R' ws p lo n"
  using assms
proof (induction ws arbitrary: p lo n)
  case Nil
  then show ?case by simp
next
  case (Cons w ws)
  obtain f where n: "n = Node f" by (cases n)
  show ?case unfolding n
  proof (rule node_inv_intro)
    fix i lf ch
    assume i: "length i = w" and fi: "f i = (lf, ch)"
    note inv = Cons.prems(1) [unfolded n]
    have agree: "R' k = R k" if "lo \<le> length k" "take (length p) k = p" for k
      using Cons.prems(4) that by blast
    have leaf: "lf = longest_upto R' (p @ i) lo (length p + w)"
    proof -
      have "R' (take l (p @ i)) = R (take l (p @ i))" if "lo \<le> l" "l \<le> length p + w" for l
      proof -
        have "length p \<le> l" using that Cons.prems(2) by arith
        then have "length (take l (p @ i)) = l" "take (length p) (take l (p @ i)) = p"
          using take_take_app [OF that(2) i] by simp_all
        then show ?thesis using agree [of "take l (p @ i)"] that by simp
      qed
      then have "longest_upto R' (p @ i) lo (length p + w) = longest_upto R (p @ i) lo (length p + w)"
        by (rule longest_upto_cong)
      then show ?thesis using node_inv_slot(1) [OF inv i fi] by simp
    qed
    have none: "\<forall>k. length p + w < length k \<and> take (length p + w) k = p @ i \<longrightarrow> R' k = None"
      if "ch = None"
    proof (intro allI impI)
      fix k assume k: "length p + w < length k \<and> take (length p + w) k = p @ i"
      then have "take (length p) (take (length p + w) k) = p" by simp
      then have tk: "take (length p) k = p" by (simp add: min_def)
      have "lo \<le> length k" using k Cons.prems(3) by arith
      then have "R' k = R k" using agree tk by blast
      moreover have "R k = None" using node_inv_slot(2) [OF inv i fi that] k by blast
      ultimately show "R' k = None" by simp
    qed
    have some: "node_inv R' ws (p @ i) (Suc (length p + w)) c" if "ch = Some c" for c
    proof (rule Cons.IH)
      show "node_inv R ws (p @ i) (Suc (length p + w)) c"
        using node_inv_slot(3) [OF inv i fi that] .
      show "length (p @ i) \<le> Suc (length p + w)" using i by simp
      show "Suc (length p + w) \<le> Suc (length (p @ i))" using i by simp
      fix k assume k: "Suc (length p + w) \<le> length k" "take (length (p @ i)) k = p @ i"
      then have "take (length p) (take (length (p @ i)) k) = p" by simp
      then have tk: "take (length p) k = p" by (simp add: min_def)
      have "lo \<le> length k" using k Cons.prems(3) by arith
      then show "R' k = R k" using agree tk by blast
    qed
    show "lf = longest_upto R' (p @ i) lo (length p + w) \<and>
          (ch = None \<longrightarrow> (\<forall>k. length p + w < length k \<and> take (length p + w) k = p @ i \<longrightarrow> R' k = None)) \<and>
          (\<forall>c. ch = Some c \<longrightarrow> node_inv R' ws (p @ i) (Suc (length p + w)) c)"
      using leaf none some by blast
  qed
qed

lemma empty_node_inv:
  assumes "\<And>k. length p < length k \<Longrightarrow> take (length p) k = p \<Longrightarrow> R k = None"
    and "length p < lo"
  shows "node_inv R ws p lo empty_node"
proof (cases ws)
  case Nil
  then show ?thesis by simp
next
  case (Cons w ws')
  show ?thesis unfolding Cons empty_node_def
  proof (rule node_inv_intro)
    fix i :: bits and lf :: "(int \<times> nat) option" and ch :: "node option"
    assume i: "length i = w" and fi: "(None, None) = (lf, ch)"
    have "R (take l (p @ i)) = None" if "lo \<le> l" "l \<le> length p + w" for l
    proof -
      have "length p \<le> l" using that assms(2) by arith
      then have "length (take l (p @ i)) = l" "take (length p) (take l (p @ i)) = p"
        using take_take_app [OF that(2) i] by simp_all
      moreover have "length p < l" using that assms(2) by arith
      ultimately show ?thesis using assms(1) [of "take l (p @ i)"] by simp
    qed
    then have "\<forall>l. lo \<le> l \<and> l \<le> length p + w \<longrightarrow> R (take l (p @ i)) = None" by blast
    then have leaf: "longest_upto R (p @ i) lo (length p + w) = None"
      by (rule iffD2 [OF longest_upto_None_iff])
    have none: "\<forall>k. length p + w < length k \<and> take (length p + w) k = p @ i \<longrightarrow> R k = None"
    proof (intro allI impI)
      fix k assume k: "length p + w < length k \<and> take (length p + w) k = p @ i"
      then have "take (length p) (take (length p + w) k) = p" by simp
      then have tk: "take (length p) k = p" by (simp add: min_def)
      have "length p < length k" using k by arith
      then show "R k = None" using assms(1) tk by blast
    qed
    show "lf = longest_upto R (p @ i) lo (length p + w) \<and>
          (ch = None \<longrightarrow> (\<forall>k. length p + w < length k \<and> take (length p + w) k = p @ i \<longrightarrow> R k = None)) \<and>
          (\<forall>c. ch = Some c \<longrightarrow> node_inv R ws' (p @ i) (Suc (length p + w)) c)"
      using leaf none fi by simp
  qed
qed


lemma take_app_take:
  assumes "l \<le> length p + w"
  shows "take l (p @ take w a) = take l (p @ a)"
  using assms by (auto simp add: min_def)

lemma node_lookup_correct:
  assumes "node_inv R ws p lo n" and "length a = sum_list ws"
    and "lo \<le> Suc (length p)" and "ws = [] \<longrightarrow> lo = Suc (length p)"
  shows "node_lookup ws n a best =
           (case longest_upto R (p @ a) lo (length p + sum_list ws) of
              Some (v, t) \<Rightarrow> Some v
            | None \<Rightarrow> best)"
  using assms
proof (induction ws arbitrary: p lo n a best)
  case Nil
  then have lo: "lo = Suc (length p)" by simp
  have "\<not> (lo \<le> l \<and> l \<le> length p)" for l using lo by arith
  then have "\<forall>l. lo \<le> l \<and> l \<le> length p \<longrightarrow> R (take l (p @ a)) = None" by blast
  then have "longest_upto R (p @ a) lo (length p) = None"
    by (rule iffD2 [OF longest_upto_None_iff])
  then show ?case by simp
next
  case (Cons w ws)
  obtain f where n: "n = Node f" by (cases n)
  note inv = Cons.prems(1) [unfolded n]
  define i where "i = take w a"
  have la: "length a = w + sum_list ws" using Cons.prems(2) by simp
  have i: "length i = w" using la by (simp add: i_def)
  obtain lf ch where fi: "f i = (lf, ch)" by (cases "f i")
  define m where "m = length p + w"
  define h where "h = length p + sum_list (w # ws)"
  define best' where "best' = (case lf of Some (v, t) \<Rightarrow> Some v | None \<Rightarrow> best)"
  have mh: "m \<le> h" "lo \<le> Suc m" using Cons.prems(3) by (simp_all add: m_def h_def)
  have pa: "p @ i @ drop w a = p @ a" by (simp add: i_def)
  have L1: "lf = longest_upto R (p @ i) lo m"
    using node_inv_slot(1) [OF inv i fi] by (simp add: m_def)
  have "R (take l (p @ i)) = R (take l (p @ a))" if "lo \<le> l" "l \<le> m" for l
    using take_app_take [of l p w a] that by (simp add: i_def m_def)
  then have L1a: "longest_upto R (p @ i) lo m = longest_upto R (p @ a) lo m"
    by (rule longest_upto_cong)
  have split: "longest_upto R (p @ a) lo h =
          (case longest_upto R (p @ a) (Suc m) h of
             Some x \<Rightarrow> Some x
           | None \<Rightarrow> lf)"
    using longest_upto_split [OF mh(2) mh(1), of R "p @ a"] L1 L1a
    by (simp split: option.split)
  have unf: "node_lookup (w # ws) (Node f) a best =
          (case ch of None \<Rightarrow> best' | Some c \<Rightarrow> node_lookup ws c (drop w a) best')"
    using fi by (simp add: i_def [symmetric] best'_def Let_def split: option.split)
  show ?case
  proof (cases ch)
    case None
    have "R (take l (p @ a)) = None" if "Suc m \<le> l" "l \<le> h" for l
    proof -
      have "length (p @ a) = h" using la by (simp add: h_def)
      then have 1: "length (take l (p @ a)) = l" using that by simp
      have "take m (take l (p @ a)) = take m (p @ a)" using that by (simp add: min_def)
      also have "\<dots> = p @ i" by (simp add: m_def i_def)
      finally have 2: "take (length p + w) (take l (p @ a)) = p @ i" by (simp add: m_def)
      have 3: "length p + w < length (take l (p @ a))" using 1 that by (simp add: m_def)
      show ?thesis using node_inv_slot(2) [OF inv i fi None 3 2] .
    qed
    then have "\<forall>l. Suc m \<le> l \<and> l \<le> h \<longrightarrow> R (take l (p @ a)) = None" by blast
    then have "longest_upto R (p @ a) (Suc m) h = None"
      by (rule iffD2 [OF longest_upto_None_iff])
    then have "longest_upto R (p @ a) lo h = lf" using split by simp
    then show ?thesis unfolding n unf using None by (simp add: h_def best'_def)
  next
    case (Some c)
    have "node_lookup ws c (drop w a) best' =
            (case longest_upto R ((p @ i) @ drop w a) (Suc (length p + w))
                    (length (p @ i) + sum_list ws) of
               Some (v, t) \<Rightarrow> Some v
             | None \<Rightarrow> best')"
    proof (rule Cons.IH)
      show "node_inv R ws (p @ i) (Suc (length p + w)) c"
        using node_inv_slot(3) [OF inv i fi Some] .
      show "length (drop w a) = sum_list ws" using la by simp
      show "Suc (length p + w) \<le> Suc (length (p @ i))" using i by simp
      show "ws = [] \<longrightarrow> Suc (length p + w) = Suc (length (p @ i))" using i by simp
    qed
    then have ih: "node_lookup ws c (drop w a) best' =
            (case longest_upto R (p @ a) (Suc m) h of
               Some (v, t) \<Rightarrow> Some v
             | None \<Rightarrow> best')"
      using i by (simp add: pa m_def h_def add.assoc)
    have lhs: "node_lookup (w # ws) (Node f) a best = node_lookup ws c (drop w a) best'"
      using unf Some by simp
    have "node_lookup ws c (drop w a) best' =
            (case longest_upto R (p @ a) lo h of Some (v, t) \<Rightarrow> Some v | None \<Rightarrow> best)"
    proof (cases "longest_upto R (p @ a) (Suc m) h")
      case None
      then have "longest_upto R (p @ a) lo h = lf" using split by simp
      moreover have "node_lookup ws c (drop w a) best' = best'" using ih None by simp
      ultimately show ?thesis by (simp add: best'_def)
    next
      case (Some x)
      then have "longest_upto R (p @ a) lo h = Some x" using split by simp
      moreover have "node_lookup ws c (drop w a) best' = (case x of (v, t) \<Rightarrow> Some v)"
        using ih Some by simp
      ultimately show ?thesis by simp
    qed
    then show ?thesis unfolding n lhs by (simp add: h_def)
  qed
qed


lemma node_inv_children:
  assumes inv: "node_inv R (w # ws) p lo (Node f)" and i: "length i = w" and fi: "f i = (lf, ch)"
    and agree: "\<And>k. length p + w < length k \<Longrightarrow> take (length p + w) k = p @ i \<Longrightarrow> R' k = R k"
  shows "(ch = None \<longrightarrow> (\<forall>k. length p + w < length k \<and> take (length p + w) k = p @ i \<longrightarrow> R' k = None)) \<and>
         (\<forall>c. ch = Some c \<longrightarrow> node_inv R' ws (p @ i) (Suc (length p + w)) c)"
proof (intro conjI impI allI)
  fix k assume "ch = None" and k: "length p + w < length k \<and> take (length p + w) k = p @ i"
  then have "R k = None" using node_inv_slot(2) [OF inv i fi] by blast
  moreover have "R' k = R k" using agree k by blast
  ultimately show "R' k = None" by simp
next
  fix c assume c: "ch = Some c"
  show "node_inv R' ws (p @ i) (Suc (length p + w)) c"
  proof (rule node_inv_cong)
    show "node_inv R ws (p @ i) (Suc (length p + w)) c"
      using node_inv_slot(3) [OF inv i fi c] .
    show "length (p @ i) \<le> Suc (length p + w)" using i by simp
    show "Suc (length p + w) \<le> Suc (length (p @ i))" using i by simp
    fix k assume "Suc (length p + w) \<le> length k" "take (length (p @ i)) k = p @ i"
    then have "length p + w < length k" "take (length p + w) k = p @ i" using i by simp_all
    then show "R' k = R k" using agree by blast
  qed
qed

lemma longest_upto_other:
  assumes "\<And>l. lo \<le> l \<Longrightarrow> l \<le> h \<Longrightarrow> take l s \<noteq> key"
  shows "longest_upto (R(key := x)) s lo h = longest_upto R s lo h"
proof (rule longest_upto_cong)
  fix l assume "lo \<le> l" "l \<le> h"
  then have "take l s \<noteq> key" using assms by blast
  then show "(R(key := x)) (take l s) = R (take l s)" by simp
qed

lemma take_app_key:
  assumes "length i = w" and "length k \<le> w"
  shows "take (length p + length k) (p @ i) = p @ take (length k) i"
  by simp

lemma length_neq_imp_neq: "length xs \<noteq> length ys \<Longrightarrow> xs \<noteq> ys"
  by auto

lemma node_insert_inv:
  assumes "node_inv R ws p lo n"
    and "length p \<le> lo" and "lo \<le> Suc (length p)"
    and "lo \<le> length p + length k" and "length k \<le> sum_list ws"
  shows "node_inv (R(p @ k \<mapsto> v)) ws p lo (node_insert ws n k (length p + length k) v)"
  using assms
proof (induction ws arbitrary: p lo n k)
  case Nil
  then show ?case by simp
next
  case (Cons w ws)
  obtain f where n: "n = Node f" by (cases n)
  note inv = Cons.prems(1) [unfolded n]
  let ?L = "length p + length k"
  let ?R' = "R(p @ k \<mapsto> v)"
  show ?case
  proof (cases "length k \<le> w")
    case True
    define g where "g = (\<lambda>i. if length i = w \<and> take (length k) i = k then
                     (case f i of
                        (lf, ch) \<Rightarrow>
                          (if (case lf of None \<Rightarrow> True | Some (u, t) \<Rightarrow> t \<le> ?L)
                           then Some (v, ?L) else lf, ch))
                   else f i)"
    have ins: "node_insert (w # ws) n k (length p + length k) v = Node g"
      using True by (simp add: n g_def)
    have "node_inv ?R' (w # ws) p lo (Node g)"
    proof (rule node_inv_intro)
      fix i lf' ch'
      assume i: "length i = w" and gi: "g i = (lf', ch')"
      obtain lf ch where fi: "f i = (lf, ch)" by (cases "f i")
      have ch': "ch' = ch" using gi fi i by (simp add: g_def split: if_splits)
      have old: "lf = longest_upto R (p @ i) lo (length p + w)"
        using node_inv_slot(1) [OF inv i fi] .
      have "?R' k' = R k'" if "length p + w < length k'" for k'
      proof -
        have "length k' \<noteq> length (p @ k)" using that True by simp
        then have "k' \<noteq> p @ k" by (rule length_neq_imp_neq)
        then show ?thesis by simp
      qed
      then have children:
        "(ch = None \<longrightarrow> (\<forall>k. length p + w < length k \<and> take (length p + w) k = p @ i \<longrightarrow> ?R' k = None)) \<and>
         (\<forall>c. ch = Some c \<longrightarrow> node_inv ?R' ws (p @ i) (Suc (length p + w)) c)"
        using node_inv_children [OF inv i fi, of ?R'] by blast
      define s where "s = p @ i"
      have old: "lf = longest_upto R s lo (length p + w)"
        using old by (simp add: s_def)
      have len: "length (take l s) = l" if "l \<le> length p + w" for l
        using that i by (simp add: s_def)
      have leaf: "lf' = longest_upto ?R' s lo (length p + w)"
      proof (cases "take (length k) i = k")
        case False
        have lf': "lf' = lf" using gi fi False by (simp add: g_def)
        have "take l s \<noteq> p @ k" if "lo \<le> l" "l \<le> length p + w" for l
        proof
          assume e: "take l s = p @ k"
          then have "l = length p + length k" using len [OF that(2)] by simp
          then have "p @ take (length k) i = p @ k" using e by (simp add: s_def)
          then show False using False by simp
        qed
        then have "longest_upto (R(p @ k := Some v)) s lo (length p + w) =
                   longest_upto R s lo (length p + w)"
          by (rule longest_upto_other)
        then show ?thesis using lf' old by simp
      next
        case tk: True
        have key: "take ?L s = p @ k" using tk by (simp add: s_def)
        have LL: "lo \<le> ?L" "?L \<le> length p + w"
          using Cons.prems(4) True by simp_all
        have other: "?R' (take l s) = R (take l s)"
          if "l \<le> length p + w" "l \<noteq> ?L" for l
        proof -
          have "length (take l s) \<noteq> length (p @ k)"
            using len [OF that(1)] that(2) by simp
          then have "take l s \<noteq> p @ k" by (rule length_neq_imp_neq)
          then show ?thesis by simp
        qed
        have atL: "?R' (take ?L s) = Some v" by (simp only: key fun_upd_same)
        show ?thesis
        proof (cases "case lf of None \<Rightarrow> True | Some (u, t) \<Rightarrow> t \<le> ?L")
          case True
          have lf': "lf' = Some (v, ?L)" using gi fi tk i True by (simp add: g_def)
          have "?R' (take l s) = None" if "?L < l" "l \<le> length p + w" for l
          proof -
            have "R (take l s) = None"
            proof (cases lf)
              case None
              then have "longest_upto R s lo (length p + w) = None" using old by simp
              then have "\<forall>l. lo \<le> l \<and> l \<le> length p + w \<longrightarrow> R (take l s) = None"
                by (rule iffD1 [OF longest_upto_None_iff])
              moreover have "lo \<le> l" using LL that by arith
              ultimately show ?thesis using that by blast
            next
              case (Some x)
              obtain u t where x: "x = (u, t)" by (cases x)
              have "t \<le> ?L" using True Some x by simp
              have "longest_upto R s lo (length p + w) = Some (u, t)"
                using old Some x by simp
              then have "lo \<le> t \<and> t \<le> length p + w \<and> R (take t s) = Some u \<and>
                 (\<forall>l. t < l \<and> l \<le> length p + w \<longrightarrow> R (take l s) = None)"
                by (rule iffD1 [OF longest_upto_Some_iff])
              moreover have "t < l" using \<open>t \<le> ?L\<close> that by arith
              ultimately show ?thesis using that by blast
            qed
            moreover have "l \<noteq> ?L" using that by arith
            ultimately show ?thesis using other that by simp
          qed
          then have "lo \<le> ?L \<and> ?L \<le> length p + w \<and> ?R' (take ?L s) = Some v \<and>
                 (\<forall>l. ?L < l \<and> l \<le> length p + w \<longrightarrow> ?R' (take l s) = None)"
            using LL atL by blast
          then have "longest_upto ?R' s lo (length p + w) = Some (v, ?L)"
            by (rule iffD2 [OF longest_upto_Some_iff])
          then show ?thesis using lf' by simp
        next
          case False
          then obtain u t where lf: "lf = Some (u, t)" and t: "?L < t"
            by (cases lf) auto
          have lf': "lf' = lf" using gi fi tk i False by (simp add: g_def)
          have "longest_upto R s lo (length p + w) = Some (u, t)"
            using old lf by simp
          then have o: "lo \<le> t \<and> t \<le> length p + w \<and> R (take t s) = Some u \<and>
                 (\<forall>l. t < l \<and> l \<le> length p + w \<longrightarrow> R (take l s) = None)"
            by (rule iffD1 [OF longest_upto_Some_iff])
          have 1: "?R' (take t s) = Some u"
            using other [of t] o t by simp
          have 2: "?R' (take l s) = None" if "t < l" "l \<le> length p + w" for l
          proof -
            have "l \<noteq> ?L" using that t by arith
            then show ?thesis using other [of l] o that by simp
          qed
          have "lo \<le> t \<and> t \<le> length p + w \<and> ?R' (take t s) = Some u \<and>
                 (\<forall>l. t < l \<and> l \<le> length p + w \<longrightarrow> ?R' (take l s) = None)"
            using o 1 2 by blast
          then have "longest_upto ?R' s lo (length p + w) = Some (u, t)"
            by (rule iffD2 [OF longest_upto_Some_iff])
          then show ?thesis using lf' lf by simp
        qed
      qed
      show "lf' = longest_upto ?R' (p @ i) lo (length p + w) \<and>
          (ch' = None \<longrightarrow> (\<forall>k. length p + w < length k \<and> take (length p + w) k = p @ i \<longrightarrow> ?R' k = None)) \<and>
          (\<forall>c. ch' = Some c \<longrightarrow> node_inv ?R' ws (p @ i) (Suc (length p + w)) c)"
        using leaf children unfolding ch' s_def by blast
    qed
    then show ?thesis by (simp only: ins)
  next
    case False
    define i0 where "i0 = take w k"
    have i0: "length i0 = w" using False by (simp add: i0_def)
    obtain lf0 ch0 where fi0: "f i0 = (lf0, ch0)" by (cases "f i0")
    define c0 where "c0 = (case ch0 of None \<Rightarrow> empty_node | Some c \<Rightarrow> c)"
    define c1 where "c1 = node_insert ws c0 (drop w k) ?L v"
    define g where "g = f(i0 := (lf0, Some c1))"
    have ins: "node_insert (w # ws) n k (length p + length k) v = Node g"
      using False fi0
      by (simp add: n g_def c1_def c0_def i0_def [symmetric] Let_def)
    have kk: "(p @ i0) @ drop w k = p @ k" by (simp add: i0_def)
    have Lk: "length (p @ i0) + length (drop w k) = ?L" using False i0 by simp
    have c0: "node_inv R ws (p @ i0) (Suc (length p + w)) c0"
    proof (cases ch0)
      case None
      have "node_inv R ws (p @ i0) (Suc (length p + w)) empty_node"
      proof (rule empty_node_inv)
        show "length (p @ i0) < Suc (length p + w)" using i0 by simp
        fix k' assume "length (p @ i0) < length k'" "take (length (p @ i0)) k' = p @ i0"
        then have "length p + w < length k'" "take (length p + w) k' = p @ i0"
          using i0 by simp_all
        then show "R k' = None" using node_inv_slot(2) [OF inv i0 fi0 None] by blast
      qed
      then show ?thesis using None by (simp add: c0_def)
    next
      case (Some c)
      then show ?thesis using node_inv_slot(3) [OF inv i0 fi0 Some] by (simp add: c0_def)
    qed
    have c1: "node_inv ?R' ws (p @ i0) (Suc (length p + w)) c1"
    proof -
      have "node_inv (R((p @ i0) @ drop w k \<mapsto> v)) ws (p @ i0) (Suc (length p + w))
              (node_insert ws c0 (drop w k) (length (p @ i0) + length (drop w k)) v)"
      proof (rule Cons.IH)
        show "node_inv R ws (p @ i0) (Suc (length p + w)) c0" using c0 .
        show "length (p @ i0) \<le> Suc (length p + w)" using i0 by simp
        show "Suc (length p + w) \<le> Suc (length (p @ i0))" using i0 by simp
        show "Suc (length p + w) \<le> length (p @ i0) + length (drop w k)"
          using i0 False by simp
        show "length (drop w k) \<le> sum_list ws" using Cons.prems(5) by simp
      qed
      then show ?thesis unfolding kk Lk by (simp add: c1_def)
    qed
    have "node_inv ?R' (w # ws) p lo (Node g)"
    proof (rule node_inv_intro)
      fix i lf' ch'
      assume i: "length i = w" and gi: "g i = (lf', ch')"
      obtain lf ch where fi: "f i = (lf, ch)" by (cases "f i")
      have lf': "lf' = lf" using gi fi fi0 by (cases "i = i0") (simp_all add: g_def)
      have old: "lf = longest_upto R (p @ i) lo (length p + w)"
        using node_inv_slot(1) [OF inv i fi] .
      have "take l (p @ i) \<noteq> p @ k" if "l \<le> length p + w" for l
      proof -
        have "length (take l (p @ i)) = l" using that i by simp
        then have "length (take l (p @ i)) \<noteq> length (p @ k)" using that False by simp
        then show ?thesis by (rule length_neq_imp_neq)
      qed
      then have "longest_upto (R(p @ k := Some v)) (p @ i) lo (length p + w) =
                 longest_upto R (p @ i) lo (length p + w)"
        by (intro longest_upto_other) simp
      then have leaf: "lf' = longest_upto ?R' (p @ i) lo (length p + w)"
        using lf' old by simp
      have children:
        "(ch' = None \<longrightarrow> (\<forall>k. length p + w < length k \<and> take (length p + w) k = p @ i \<longrightarrow> ?R' k = None)) \<and>
         (\<forall>c. ch' = Some c \<longrightarrow> node_inv ?R' ws (p @ i) (Suc (length p + w)) c)"
      proof (cases "i = i0")
        case True
        have "ch' = Some c1" using gi True by (simp add: g_def)
        then show ?thesis using c1 True by simp
      next
        case ne: False
        have ch': "ch' = ch" using gi fi ne by (simp add: g_def)
        have "?R' k' = R k'" if "take (length p + w) k' = p @ i" for k'
        proof -
          have "take (length p + w) (p @ k) = p @ i0" by (simp add: i0_def)
          moreover have "p @ i \<noteq> p @ i0" using ne by simp
          ultimately have "take (length p + w) k' \<noteq> take (length p + w) (p @ k)"
            using that by simp
          then have "k' \<noteq> p @ k" by blast
          then show ?thesis by simp
        qed
        then show ?thesis using node_inv_children [OF inv i fi, of ?R'] unfolding ch' by blast
      qed
      show "lf' = longest_upto ?R' (p @ i) lo (length p + w) \<and>
          (ch' = None \<longrightarrow> (\<forall>k. length p + w < length k \<and> take (length p + w) k = p @ i \<longrightarrow> ?R' k = None)) \<and>
          (\<forall>c. ch' = Some c \<longrightarrow> node_inv ?R' ws (p @ i) (Suc (length p + w)) c)"
        using leaf children by blast
    qed
    then show ?thesis by (simp only: ins)
  qed
qed


lemma node_delete_inv:
  assumes "node_inv R ws p lo n"
    and "length p \<le> lo" and "lo \<le> Suc (length p)"
    and "lo \<le> length p + length k" and "length k \<le> sum_list ws"
    and "R (p @ k) = Some u"
  shows "node_inv (R(p @ k := None)) ws p lo
           (node_delete ws (R(p @ k := None)) n k (p @ k) lo)"
  using assms
proof (induction ws arbitrary: p lo n k)
  case Nil
  then show ?case by simp
next
  case (Cons w ws)
  obtain f where n: "n = Node f" by (cases n)
  note inv = Cons.prems(1) [unfolded n]
  let ?L = "length p + length k"
  let ?R' = "R(p @ k := None)"
  show ?case
  proof (cases "length k \<le> w")
    case True
    define g where "g = (\<lambda>i. if length i = w \<and> take (length k) i = k then
                     (case f i of
                        (lf, ch) \<Rightarrow>
                          (if (case lf of None \<Rightarrow> False | Some (u, t) \<Rightarrow> t = length (p @ k))
                           then longest_upto ?R' (p @ k) lo (length (p @ k)) else lf, ch))
                   else f i)"
    have del: "node_delete (w # ws) ?R' n k (p @ k) lo = Node g"
      using True by (simp add: n g_def)
    have "node_inv ?R' (w # ws) p lo (Node g)"
    proof (rule node_inv_intro)
      fix i lf' ch'
      assume i: "length i = w" and gi: "g i = (lf', ch')"
      obtain lf ch where fi: "f i = (lf, ch)" by (cases "f i")
      have ch': "ch' = ch" using gi fi i by (simp add: g_def split: if_splits)
      have old: "lf = longest_upto R (p @ i) lo (length p + w)"
        using node_inv_slot(1) [OF inv i fi] .
      have "?R' k' = R k'" if "length p + w < length k'" for k'
      proof -
        have "length k' \<noteq> length (p @ k)" using that True by simp
        then have "k' \<noteq> p @ k" by (rule length_neq_imp_neq)
        then show ?thesis by simp
      qed
      then have children:
        "(ch = None \<longrightarrow> (\<forall>k. length p + w < length k \<and> take (length p + w) k = p @ i \<longrightarrow> ?R' k = None)) \<and>
         (\<forall>c. ch = Some c \<longrightarrow> node_inv ?R' ws (p @ i) (Suc (length p + w)) c)"
        using node_inv_children [OF inv i fi, of ?R'] by blast
      define s where "s = p @ i"
      have old: "lf = longest_upto R s lo (length p + w)"
        using old by (simp add: s_def)
      have len: "length (take l s) = l" if "l \<le> length p + w" for l
        using that i by (simp add: s_def)
      have leaf: "lf' = longest_upto ?R' s lo (length p + w)"
      proof (cases "take (length k) i = k")
        case False
        have lf': "lf' = lf" using gi fi False by (simp add: g_def)
        have "take l s \<noteq> p @ k" if "lo \<le> l" "l \<le> length p + w" for l
        proof
          assume e: "take l s = p @ k"
          then have "l = length p + length k" using len [OF that(2)] by simp
          then have "p @ take (length k) i = p @ k" using e by (simp add: s_def)
          then show False using False by simp
        qed
        then have "longest_upto (R(p @ k := None)) s lo (length p + w) =
                   longest_upto R s lo (length p + w)"
          by (rule longest_upto_other)
        then show ?thesis using lf' old by simp
      next
        case tk: True
        have key: "take ?L s = p @ k" using tk by (simp add: s_def)
        have LL: "lo \<le> ?L" "?L \<le> length p + w"
          using Cons.prems(4) True by simp_all
        have other: "?R' (take l s) = R (take l s)"
          if "l \<le> length p + w" "l \<noteq> ?L" for l
        proof -
          have "length (take l s) \<noteq> length (p @ k)"
            using len [OF that(1)] that(2) by simp
          then have "take l s \<noteq> p @ k" by (rule length_neq_imp_neq)
          then show ?thesis by simp
        qed
        have atL: "?R' (take ?L s) = None" by (simp only: key fun_upd_same)
        have RL: "R (take ?L s) = Some u" using Cons.prems(6) by (simp only: key)
        obtain u' t where lf: "lf = Some (u', t)" and t: "?L \<le> t"
        proof (cases lf)
          case None
          then have "longest_upto R s lo (length p + w) = None" using old by simp
          then have "\<forall>l. lo \<le> l \<and> l \<le> length p + w \<longrightarrow> R (take l s) = None"
            by (rule iffD1 [OF longest_upto_None_iff])
          then have "R (take ?L s) = None" using LL by blast
          then show ?thesis using RL by simp
        next
          case (Some x)
          obtain u' t where x: "x = (u', t)" by (cases x)
          have "longest_upto R s lo (length p + w) = Some (u', t)"
            using old Some x by simp
          then have o: "lo \<le> t \<and> t \<le> length p + w \<and> R (take t s) = Some u' \<and>
                 (\<forall>l. t < l \<and> l \<le> length p + w \<longrightarrow> R (take l s) = None)"
            by (rule iffD1 [OF longest_upto_Some_iff])
          have "\<not> t < ?L"
          proof
            assume "t < ?L"
            then have "R (take ?L s) = None" using o LL by blast
            then show False using RL by simp
          qed
          then have "?L \<le> t" by arith
          then show ?thesis using that Some x by blast
        qed
        have "longest_upto R s lo (length p + w) = Some (u', t)"
          using old lf by simp
        then have o: "lo \<le> t \<and> t \<le> length p + w \<and> R (take t s) = Some u' \<and>
               (\<forall>l. t < l \<and> l \<le> length p + w \<longrightarrow> R (take l s) = None)"
          by (rule iffD1 [OF longest_upto_Some_iff])
        show ?thesis
        proof (cases "t = ?L")
          case True
          have lf': "lf' = longest_upto ?R' (p @ k) lo ?L"
            using gi fi tk i lf True by (simp add: g_def)
          have "?R' (take l s) = None" if "Suc ?L \<le> l" "l \<le> length p + w" for l
          proof -
            have "l \<noteq> ?L" "t < l" using that True by arith+
            then show ?thesis using other [OF that(2)] o that by simp
          qed
          then have "\<forall>l. Suc ?L \<le> l \<and> l \<le> length p + w \<longrightarrow> ?R' (take l s) = None"
            by blast
          then have up: "longest_upto ?R' s (Suc ?L) (length p + w) = None"
            by (rule iffD2 [OF longest_upto_None_iff])
          have "lo \<le> Suc ?L" using LL by arith
          then have "longest_upto ?R' s lo (length p + w) =
                (case longest_upto ?R' s (Suc ?L) (length p + w) of
                   Some x \<Rightarrow> Some x
                 | None \<Rightarrow> longest_upto ?R' s lo ?L)"
            using LL(2) by (rule longest_upto_split)
          then have 1: "longest_upto ?R' s lo (length p + w) = longest_upto ?R' s lo ?L"
            using up by simp
          have "?R' (take l s) = ?R' (take l (p @ k))" if "l \<le> ?L" for l
          proof -
            have "take l (take ?L s) = take l s" using that by (simp add: min_def)
            then show ?thesis by (simp only: key)
          qed
          then have "longest_upto ?R' s lo ?L = longest_upto ?R' (p @ k) lo ?L"
            by (intro longest_upto_cong) blast
          then show ?thesis using 1 lf' by simp
        next
          case False
          then have tL: "?L < t" using t by arith
          have lf': "lf' = lf" using gi fi tk i lf False by (simp add: g_def)
          have 1: "?R' (take t s) = Some u'"
            using other [of t] o tL by simp
          have 2: "?R' (take l s) = None" if "t < l" "l \<le> length p + w" for l
          proof -
            have "l \<noteq> ?L" using that tL by arith
            then show ?thesis using other [of l] o that by simp
          qed
          have "lo \<le> t \<and> t \<le> length p + w \<and> ?R' (take t s) = Some u' \<and>
                 (\<forall>l. t < l \<and> l \<le> length p + w \<longrightarrow> ?R' (take l s) = None)"
            using o 1 2 by blast
          then have "longest_upto ?R' s lo (length p + w) = Some (u', t)"
            by (rule iffD2 [OF longest_upto_Some_iff])
          then show ?thesis using lf' lf by simp
        qed
      qed
      show "lf' = longest_upto ?R' (p @ i) lo (length p + w) \<and>
          (ch' = None \<longrightarrow> (\<forall>k. length p + w < length k \<and> take (length p + w) k = p @ i \<longrightarrow> ?R' k = None)) \<and>
          (\<forall>c. ch' = Some c \<longrightarrow> node_inv ?R' ws (p @ i) (Suc (length p + w)) c)"
        using leaf children unfolding ch' s_def by blast
    qed
    then show ?thesis by (simp only: del)
  next
    case False
    define i0 where "i0 = take w k"
    have i0: "length i0 = w" using False by (simp add: i0_def)
    obtain lf0 ch0 where fi0: "f i0 = (lf0, ch0)" by (cases "f i0")
    have kk: "(p @ i0) @ drop w k = p @ k" by (simp add: i0_def)
    have Lk: "length (p @ i0) + length (drop w k) = ?L" using False i0 by simp
    have "ch0 \<noteq> None"
    proof
      assume none: "ch0 = None"
      have "length p + w < length (p @ k)" using False by simp
      moreover have "take (length p + w) (p @ k) = p @ i0" by (simp add: i0_def)
      ultimately have "R (p @ k) = None" using node_inv_slot(2) [OF inv i0 fi0 none] by blast
      then show False using Cons.prems(6) by simp
    qed
    then obtain c0 where ch0: "ch0 = Some c0" by (cases ch0) auto
    define c1 where "c1 = node_delete ws ?R' c0 (drop w k) (p @ k) (Suc (length p + w))"
    define g where "g = f(i0 := (lf0, Some c1))"
    have lo': "Suc (length (p @ k) - length (drop w k)) = Suc (length p + w)"
      using False by simp
    have del: "node_delete (w # ws) ?R' n k (p @ k) lo = Node g"
      using False fi0 ch0 lo'
      by (simp add: n g_def c1_def i0_def [symmetric] Let_def del: length_append length_drop)
    have c0: "node_inv R ws (p @ i0) (Suc (length p + w)) c0"
      using node_inv_slot(3) [OF inv i0 fi0 ch0] .
    have c1: "node_inv ?R' ws (p @ i0) (Suc (length p + w)) c1"
    proof -
      have "node_inv (R((p @ i0) @ drop w k := None)) ws (p @ i0) (Suc (length p + w))
              (node_delete ws (R((p @ i0) @ drop w k := None)) c0 (drop w k)
                 ((p @ i0) @ drop w k) (Suc (length p + w)))"
      proof (rule Cons.IH)
        show "node_inv R ws (p @ i0) (Suc (length p + w)) c0" using c0 .
        show "length (p @ i0) \<le> Suc (length p + w)" using i0 by simp
        show "Suc (length p + w) \<le> Suc (length (p @ i0))" using i0 by simp
        show "Suc (length p + w) \<le> length (p @ i0) + length (drop w k)"
          using i0 False by simp
        show "length (drop w k) \<le> sum_list ws" using Cons.prems(5) by simp
        show "R ((p @ i0) @ drop w k) = Some u" using Cons.prems(6) by (simp only: kk)
      qed
      then show ?thesis unfolding kk by (simp add: c1_def)
    qed
    have "node_inv ?R' (w # ws) p lo (Node g)"
    proof (rule node_inv_intro)
      fix i lf' ch'
      assume i: "length i = w" and gi: "g i = (lf', ch')"
      obtain lf ch where fi: "f i = (lf, ch)" by (cases "f i")
      have lf': "lf' = lf" using gi fi fi0 by (cases "i = i0") (simp_all add: g_def)
      have old: "lf = longest_upto R (p @ i) lo (length p + w)"
        using node_inv_slot(1) [OF inv i fi] .
      have "take l (p @ i) \<noteq> p @ k" if "l \<le> length p + w" for l
      proof -
        have "length (take l (p @ i)) = l" using that i by simp
        then have "length (take l (p @ i)) \<noteq> length (p @ k)" using that False by simp
        then show ?thesis by (rule length_neq_imp_neq)
      qed
      then have "longest_upto (R(p @ k := None)) (p @ i) lo (length p + w) =
                 longest_upto R (p @ i) lo (length p + w)"
        by (intro longest_upto_other) simp
      then have leaf: "lf' = longest_upto ?R' (p @ i) lo (length p + w)"
        using lf' old by simp
      have children:
        "(ch' = None \<longrightarrow> (\<forall>k. length p + w < length k \<and> take (length p + w) k = p @ i \<longrightarrow> ?R' k = None)) \<and>
         (\<forall>c. ch' = Some c \<longrightarrow> node_inv ?R' ws (p @ i) (Suc (length p + w)) c)"
      proof (cases "i = i0")
        case True
        have "ch' = Some c1" using gi True by (simp add: g_def)
        then show ?thesis using c1 True by simp
      next
        case ne: False
        have ch': "ch' = ch" using gi fi ne by (simp add: g_def)
        have "?R' k' = R k'" if "take (length p + w) k' = p @ i" for k'
        proof -
          have "take (length p + w) (p @ k) = p @ i0" by (simp add: i0_def)
          moreover have "p @ i \<noteq> p @ i0" using ne by simp
          ultimately have "take (length p + w) k' \<noteq> take (length p + w) (p @ k)"
            using that by simp
          then have "k' \<noteq> p @ k" by blast
          then show ?thesis by simp
        qed
        then show ?thesis using node_inv_children [OF inv i fi, of ?R'] unfolding ch' by blast
      qed
      show "lf' = longest_upto ?R' (p @ i) lo (length p + w) \<and>
          (ch' = None \<longrightarrow> (\<forall>k. length p + w < length k \<and> take (length p + w) k = p @ i \<longrightarrow> ?R' k = None)) \<and>
          (\<forall>c. ch' = Some c \<longrightarrow> node_inv ?R' ws (p @ i) (Suc (length p + w)) c)"
        using leaf children by blast
    qed
    then show ?thesis by (simp only: del)
  qed
qed

lemma length_bits_of_bytes: "length (bits_of_bytes bs) = 8 * length bs"
  by (induction bs) (simp_all add: bits_of_bytes_def bits_of_byte_def)

lemma empty_node_inv_empty: "node_inv Map.empty ws p lo empty_node"
proof (cases ws)
  case Nil
  then show ?thesis by simp
next
  case (Cons w ws')
  show ?thesis unfolding Cons empty_node_def
  proof (rule node_inv_intro)
    fix i :: bits and lf :: "(int \<times> nat) option" and ch :: "node option"
    assume fi: "(None, None) = (lf, ch)"
    have "\<forall>l. lo \<le> l \<and> l \<le> length p + w \<longrightarrow> (Map.empty :: bits \<rightharpoonup> int) (take l (p @ i)) = None"
      by simp
    then have "longest_upto Map.empty (p @ i) lo (length p + w) = None"
      by (rule iffD2 [OF longest_upto_None_iff])
    then show "lf = longest_upto Map.empty (p @ i) lo (length p + w) \<and>
          (ch = None \<longrightarrow> (\<forall>k. length p + w < length k \<and> take (length p + w) k = p @ i \<longrightarrow> (Map.empty :: bits \<rightharpoonup> int) k = None)) \<and>
          (\<forall>c. ch = Some c \<longrightarrow> node_inv Map.empty ws' (p @ i) (Suc (length p + w)) c)"
      using fi by simp
  qed
qed

lemma trie_new_inv:
  assumes "ws \<noteq> []" and "sum_list ws = 8 * nb"
  shows "trie_inv nb (trie_new ws algo)"
  using assms by (simp add: trie_inv_def trie_new_def empty_node_inv_empty)

lemma trie_add_ok:
  assumes "trie_inv nb e" and "length bs = nb" and "len \<le> 8 * nb"
  shows "fst (trie_add nb e bs len v) = 0"
    and "trie_inv nb (snd (trie_add nb e bs len v))"
    and "map_of (prefixes (snd (trie_add nb e bs len v))) =
           (map_of (prefixes e))(take len (bits_of_bytes bs) \<mapsto> v)"
    and "prefixes (snd (trie_add nb e bs len v)) =
           AList.update (take len (bits_of_bytes bs)) v (prefixes e)"
proof -
  define key where "key = take len (bits_of_bytes bs)"
  have lk: "length key = len" using assms(2,3) by (simp add: key_def length_bits_of_bytes)
  have add: "trie_add nb e bs len v =
      (0, e\<lparr>root := node_insert (strides e) (root e) key len v,
             prefixes := AList.update key v (prefixes e)\<rparr>)"
    using assms(2,3) by (simp add: trie_add_def key_def Let_def)
  have inv: "node_inv (map_of (prefixes e)) (strides e) [] 0 (root e)"
    and sum: "sum_list (strides e) = 8 * nb" and ne: "strides e \<noteq> []"
    using assms(1) by (simp_all add: trie_inv_def)
  have "node_inv ((map_of (prefixes e))([] @ key \<mapsto> v)) (strides e) [] 0
          (node_insert (strides e) (root e) key (length ([] :: bits) + length key) v)"
    using inv
  proof (rule node_insert_inv)
    show "length ([] :: bits) \<le> 0" by simp
    show "0 \<le> Suc (length ([] :: bits))" by simp
    show "0 \<le> length ([] :: bits) + length key" by simp
    show "length key \<le> sum_list (strides e)" using lk assms(3) sum by simp
  qed
  then have "node_inv ((map_of (prefixes e))(key \<mapsto> v)) (strides e) [] 0
          (node_insert (strides e) (root e) key len v)"
    using lk by simp
  then show "trie_inv nb (snd (trie_add nb e bs len v))"
    using sum ne by (simp add: add trie_inv_def update_conv')
  show "fst (trie_add nb e bs len v) = 0" by (simp add: add)
  show "map_of (prefixes (snd (trie_add nb e bs len v))) =
           (map_of (prefixes e))(take len (bits_of_bytes bs) \<mapsto> v)"
    by (simp add: add update_conv' key_def)
  show "prefixes (snd (trie_add nb e bs len v)) =
           AList.update (take len (bits_of_bytes bs)) v (prefixes e)"
    by (simp add: add key_def)
qed

lemma trie_delete_absent:
  assumes "map_of (prefixes e) (take len (bits_of_bytes bs)) = None"
  shows "trie_delete nb e bs len = (- 1, e)"
  using assms by (simp add: trie_delete_def Let_def)

lemma trie_delete_ok:
  assumes "trie_inv nb e" and "length bs = nb" and "len \<le> 8 * nb"
    and "map_of (prefixes e) (take len (bits_of_bytes bs)) = Some u"
  shows "fst (trie_delete nb e bs len) = 0"
    and "trie_inv nb (snd (trie_delete nb e bs len))"
    and "map_of (prefixes (snd (trie_delete nb e bs len))) =
           (map_of (prefixes e))(take len (bits_of_bytes bs) := None)"
proof -
  let ?key = "take len (bits_of_bytes bs)"
  let ?R' = "(map_of (prefixes e))(?key := None)"
  have lk: "length ?key = len" using assms(2,3) by (simp add: length_bits_of_bytes)
  have mo: "map_of (AList.delete ?key (prefixes e)) = ?R'"
    by (simp add: delete_conv')
  have del: "trie_delete nb e bs len =
      (0, e\<lparr>root := node_delete (strides e) ?R' (root e) ?key ?key 0,
             prefixes := AList.delete ?key (prefixes e)\<rparr>)"
    using assms(2,3,4) by (simp add: trie_delete_def Let_def mo)
  have inv: "node_inv (map_of (prefixes e)) (strides e) [] 0 (root e)"
    and sum: "sum_list (strides e) = 8 * nb" and ne: "strides e \<noteq> []"
    using assms(1) by (simp_all add: trie_inv_def)
  have "node_inv ((map_of (prefixes e))([] @ ?key := None)) (strides e) [] 0
          (node_delete (strides e) ((map_of (prefixes e))([] @ ?key := None)) (root e) ?key
             ([] @ ?key) 0)"
    using inv
  proof (rule node_delete_inv)
    show "length ([] :: bits) \<le> 0" by simp
    show "0 \<le> Suc (length ([] :: bits))" by simp
    show "0 \<le> length ([] :: bits) + length ?key" by simp
    show "length ?key \<le> sum_list (strides e)" using lk assms(3) sum by simp
    show "map_of (prefixes e) ([] @ ?key) = Some u" using assms(4) by simp
  qed
  then have "node_inv ?R' (strides e) [] 0 (node_delete (strides e) ?R' (root e) ?key ?key 0)"
    by simp
  then show "trie_inv nb (snd (trie_delete nb e bs len))"
    using sum ne by (simp add: del trie_inv_def mo)
  show "fst (trie_delete nb e bs len) = 0" by (simp add: del)
  show "map_of (prefixes (snd (trie_delete nb e bs len))) =
           (map_of (prefixes e))(take len (bits_of_bytes bs) := None)"
    by (simp add: del mo)
qed

lemma trie_lookup_correct:
  assumes "trie_inv nb e" and "length a = 8 * nb"
  shows "trie_lookup e a =
           (case longest_upto (map_of (prefixes e)) a 0 (8 * nb) of
              Some (v, t) \<Rightarrow> v
            | None \<Rightarrow> INVALID_NEXT_HOP)"
proof -
  have inv: "node_inv (map_of (prefixes e)) (strides e) [] 0 (root e)"
    and sum: "sum_list (strides e) = 8 * nb" and ne: "strides e \<noteq> []"
    using assms(1) by (simp_all add: trie_inv_def)
  have "node_lookup (strides e) (root e) a None =
           (case longest_upto (map_of (prefixes e)) ([] @ a) 0
                   (length ([] :: bits) + sum_list (strides e)) of
              Some (v, t) \<Rightarrow> Some v
            | None \<Rightarrow> None)"
    using inv
  proof (rule node_lookup_correct)
    show "length a = sum_list (strides e)" using assms(2) sum by simp
    show "0 \<le> Suc (length ([] :: bits))" by simp
    show "strides e = [] \<longrightarrow> 0 = Suc (length ([] :: bits))" using ne by simp
  qed
  then have "node_lookup (strides e) (root e) a None =
           (case longest_upto (map_of (prefixes e)) a 0 (8 * nb) of
              Some (v, t) \<Rightarrow> Some v
            | None \<Rightarrow> None)"
    using sum by simp
  then show ?thesis
    by (simp add: trie_lookup_def split: option.splits)
qed

(*CLAIMS*)

end
